theory Spec2Isabelle
  imports Main
begin

section \<open>Values, errors and JavaScript sets\<close>

text \<open>
  Request inputs and results are opaque values (\<open>mixed\<close> in the Flow types). The
  exceptions the tracker can raise are values of \<open>error\<close>: \<open>nullthrows\<close>,
  a failed \<open>invariant\<close>, the \<open>Invalid invalidation\<close> error, an error thrown
  by a request body, and the abort error of \<open>assertSignalNotAborted\<close>.
\<close>

datatype js_value = Undefined | Num int | Str string

datatype error =
    NullThrows
  | InvariantFailed
  | InvalidInvalidation
  | RequestFailed string
  | Aborted

text \<open>
  A JavaScript \<open>Set\<close> of strings iterates in insertion order and holds no element
  twice: a list, with \<open>add\<close> appending an element that is not there yet and
  \<open>delete\<close> removing it.
\<close>

definition set_add :: "'a \<Rightarrow> 'a list \<Rightarrow> 'a list" where
  "set_add x xs = (if x \<in> set xs then xs else xs @ [x])"

definition set_delete :: "'a \<Rightarrow> 'a list \<Rightarrow> 'a list" where
  "set_delete x xs = removeAll x xs"

definition new_Set :: "'a list \<Rightarrow> 'a list" where
  "new_Set xs = fold set_add xs []"

text \<open>
  \<open>for_each f xs s\<close> is a \<open>for (let x of xs)\<close> loop whose body \<open>f x\<close> updates
  the state, may throw (\<open>Some (Inl e)\<close>, which leaves the loop) and may fail to return
  (\<open>None\<close>).
\<close>

fun for_each :: "('a \<Rightarrow> 's \<Rightarrow> (error + 's) option) \<Rightarrow> 'a list \<Rightarrow> 's \<Rightarrow> (error + 's) option" where
  "for_each f [] s = Some (Inr s)"
| "for_each f (x # xs) s =
     (case f x s of
        None \<Rightarrow> None
      | Some (Inl e) \<Rightarrow> Some (Inl e)
      | Some (Inr s') \<Rightarrow> for_each f xs s')"

section \<open>Nodes and edges\<close>

record StoredRequest =
  sr_id :: string
  sr_type :: string
  sr_input :: js_value
  sr_result :: "js_value option"

datatype node_type =
    request_t
  | file_t
  | glob_t
  | extensionless_file_t
  | file_name_t
  | env_t
  | option_t

text \<open>
  The value of a node, by node type: a stored request, a file path, a glob, a file
  path with its set of extensions, a file name, an environment variable with the
  captured value, an option with the hash of the captured value.
\<close>

datatype node_value =
    RequestValue StoredRequest
  | FileValue string
  | GlobValue string
  | ExtensionlessFileValue string "string list"
  | FileNameValue string
  | EnvValue string string
  | OptionValue string string

record node =
  node_id :: string
  node_value :: node_value

fun value_type :: "node_value \<Rightarrow> node_type" where
  "value_type (RequestValue r) = request_t"
| "value_type (FileValue p) = file_t"
| "value_type (GlobValue g) = glob_t"
| "value_type (ExtensionlessFileValue p es) = extensionless_file_t"
| "value_type (FileNameValue n) = file_name_t"
| "value_type (EnvValue k v) = env_t"
| "value_type (OptionValue k h) = option_t"

definition node_type :: "node \<Rightarrow> node_type" where
  "node_type n = value_type (node_value n)"

datatype edge_type =
    subrequest
  | invalidated_by_update
  | invalidated_by_delete
  | invalidated_by_create
  | invalidated_by_create_above
  | dirname

definition nodeFromFilePath :: "string \<Rightarrow> node" where
  "nodeFromFilePath filePath = \<lparr>node_id = filePath, node_value = FileValue filePath\<rparr>"

definition nodeFromGlob :: "string \<Rightarrow> node" where
  "nodeFromGlob g = \<lparr>node_id = g, node_value = GlobValue g\<rparr>"

definition extensionlessFileNodeId :: "string \<Rightarrow> string" where
  "extensionlessFileNodeId filePath = ''extensionless_file:'' @ filePath"

definition nodeFromExtensionlessFilePath :: "string \<Rightarrow> string list \<Rightarrow> node" where
  "nodeFromExtensionlessFilePath filePath extensions =
     \<lparr>node_id = extensionlessFileNodeId filePath,
      node_value = ExtensionlessFileValue filePath extensions\<rparr>"

definition nodeFromFileName :: "string \<Rightarrow> node" where
  "nodeFromFileName fileName =
     \<lparr>node_id = ''file_name:'' @ fileName, node_value = FileNameValue fileName\<rparr>"

definition nodeFromRequest :: "StoredRequest \<Rightarrow> node" where
  "nodeFromRequest r = \<lparr>node_id = sr_id r, node_value = RequestValue r\<rparr>"

definition nodeFromEnv :: "string \<Rightarrow> string \<Rightarrow> node" where
  "nodeFromEnv e v = \<lparr>node_id = ''env:'' @ e, node_value = EnvValue e v\<rparr>"

text \<open>\<open>hashFromOption\<close> lives in \<open>./utils\<close>; the hash function is a parameter.\<close>

definition nodeFromOption :: "(js_value \<Rightarrow> string) \<Rightarrow> string \<Rightarrow> js_value \<Rightarrow> node" where
  "nodeFromOption hashFromOption opt v =
     \<lparr>node_id = ''option:'' @ opt, node_value = OptionValue opt (hashFromOption v)\<rparr>"

section \<open>The base graph\<close>

text \<open>
  The state of a \<open>RequestGraph\<close>: the node map and the edges of the base class
  \<open>Graph\<close>, and the six id sets of \<open>RequestGraph\<close>.
\<close>

record request_graph =
  nodes :: "string \<rightharpoonup> node"
  edges :: "(string \<times> string \<times> edge_type) list"
  invalidNodeIds :: "string list"
  incompleteNodeIds :: "string list"
  globNodeIds :: "string list"
  envNodeIds :: "string list"
  optionNodeIds :: "string list"
  unpredicatableNodeIds :: "string list"

definition empty_graph :: request_graph where
  "empty_graph =
     \<lparr>nodes = Map.empty, edges = [], invalidNodeIds = [], incompleteNodeIds = [],
      globNodeIds = [], envNodeIds = [], optionNodeIds = [], unpredicatableNodeIds = []\<rparr>"

text \<open>
  Modelled from the spec: the base class \<open>Graph\<close> (\<open>./Graph\<close>, imported by
  \<open>RequestTracker.js\<close>, is not among the sources). The spec's section 4.1 and its
  invariants give: nodes keyed by id, re-adding an existing id is a no-op; edges are
  keyed by (from, to, kind), so adding one twice is adding it once; removing a node
  removes its incident edges; the nodes reached to or from a node are filtered by
  kind; \<open>replace_nodes_connected_to\<close> removes the out-edges of the kind that are no
  longer among the targets and adds the new ones; orphaned nodes are not deleted.
\<close>

definition hasNode :: "request_graph \<Rightarrow> string \<Rightarrow> bool" where
  "hasNode g i = (nodes g i \<noteq> None)"

definition getNode :: "request_graph \<Rightarrow> string \<Rightarrow> node option" where
  "getNode g i = nodes g i"

definition Graph_addNode :: "request_graph \<Rightarrow> node \<Rightarrow> request_graph" where
  "Graph_addNode g n =
     (if hasNode g (node_id n) then g else g\<lparr>nodes := (nodes g)(node_id n \<mapsto> n)\<rparr>)"

definition hasEdge :: "request_graph \<Rightarrow> string \<Rightarrow> string \<Rightarrow> edge_type \<Rightarrow> bool" where
  "hasEdge g a b k = ((a, b, k) \<in> set (edges g))"

definition addEdge :: "request_graph \<Rightarrow> string \<Rightarrow> string \<Rightarrow> edge_type \<Rightarrow> request_graph" where
  "addEdge g a b k = g\<lparr>edges := set_add (a, b, k) (edges g)\<rparr>"

definition getNodesConnectedTo :: "request_graph \<Rightarrow> node \<Rightarrow> edge_type \<Rightarrow> node list" where
  "getNodesConnectedTo g n k =
     List.map_filter (\<lambda>(a, b, k'). if b = node_id n \<and> k' = k then nodes g a else None) (edges g)"

definition getNodesConnectedFrom :: "request_graph \<Rightarrow> node \<Rightarrow> edge_type \<Rightarrow> node list" where
  "getNodesConnectedFrom g n k =
     List.map_filter (\<lambda>(a, b, k'). if a = node_id n \<and> k' = k then nodes g b else None) (edges g)"

definition Graph_removeNode :: "request_graph \<Rightarrow> node \<Rightarrow> request_graph" where
  "Graph_removeNode g n =
     g\<lparr>nodes := (nodes g)(node_id n := None),
       edges := filter (\<lambda>(a, b, k). a \<noteq> node_id n \<and> b \<noteq> node_id n) (edges g)\<rparr>"

definition replaceNodesConnectedTo ::
  "request_graph \<Rightarrow> node \<Rightarrow> node list \<Rightarrow> edge_type \<Rightarrow> request_graph" where
  "replaceNodesConnectedTo g fromNode toNodes k =
     fold (\<lambda>toNode g'. addEdge g' (node_id fromNode) (node_id toNode) k) toNodes
       (g\<lparr>edges := filter (\<lambda>(a, b, k').
              \<not> (a = node_id fromNode \<and> k' = k \<and> b \<notin> node_id ` set toNodes)) (edges g)\<rparr>)"

section \<open>RequestGraph\<close>

definition RequestGraph_addNode :: "request_graph \<Rightarrow> node \<Rightarrow> request_graph" where
  "RequestGraph_addNode g n =
     (let g1 = (if \<not> hasNode g (node_id n) then
                  (let ga = (if node_type n = glob_t
                             then g\<lparr>globNodeIds := set_add (node_id n) (globNodeIds g)\<rparr> else g);
                       gb = (if node_type n = env_t
                             then ga\<lparr>envNodeIds := set_add (node_id n) (envNodeIds ga)\<rparr> else ga)
                   in (if node_type n = option_t
                       then gb\<lparr>optionNodeIds := set_add (node_id n) (optionNodeIds gb)\<rparr> else gb))
                else g)
      in Graph_addNode g1 n)"

definition removeNode :: "request_graph \<Rightarrow> node \<Rightarrow> request_graph" where
  "removeNode g n =
     (let g1 = g\<lparr>invalidNodeIds := set_delete (node_id n) (invalidNodeIds g)\<rparr>;
          g2 = g1\<lparr>incompleteNodeIds := set_delete (node_id n) (incompleteNodeIds g1)\<rparr>;
          g3 = (if node_type n = glob_t
                then g2\<lparr>globNodeIds := set_delete (node_id n) (globNodeIds g2)\<rparr> else g2);
          g4 = (if node_type n = env_t
                then g3\<lparr>envNodeIds := set_delete (node_id n) (envNodeIds g3)\<rparr> else g3);
          g5 = (if node_type n = option_t
                then g4\<lparr>optionNodeIds := set_delete (node_id n) (optionNodeIds g4)\<rparr> else g4)
      in Graph_removeNode g5 n)"

definition getRequestNode :: "request_graph \<Rightarrow> string \<Rightarrow> error + node" where
  "getRequestNode g i =
     (case getNode g i of
        None \<Rightarrow> Inl NullThrows
      | Some n \<Rightarrow> if node_type n = request_t then Inr n else Inl InvariantFailed)"

definition completeRequest :: "request_graph \<Rightarrow> string \<Rightarrow> request_graph" where
  "completeRequest g i =
     g\<lparr>invalidNodeIds := set_delete i (invalidNodeIds g),
       incompleteNodeIds := set_delete i (incompleteNodeIds g)\<rparr>"

definition replaceSubrequests :: "request_graph \<Rightarrow> string \<Rightarrow> node list \<Rightarrow> error + request_graph" where
  "replaceSubrequests g requestId subrequestNodes =
     (case getRequestNode g requestId of
        Inl e \<Rightarrow> Inl e
      | Inr requestNode \<Rightarrow>
          (let g1 = (if \<not> hasNode g requestId then RequestGraph_addNode g requestNode else g)
           in Inr (replaceNodesConnectedTo g1 requestNode subrequestNodes subrequest)))"

text \<open>
  \<open>invalidateNode\<close> marks the node invalid and calls itself on every parent of the
  node (the sources of its incoming \<open>subrequest\<close> edges). Nothing stops it from
  coming back to a node it has been at, so not returning is the value \<open>None\<close>.
  The call on one node (\<open>Inl\<close>) and the loop over the parents (\<open>Inr\<close>) are one
  recursive function on a sum.
\<close>

partial_function (option) invalidate_walk ::
  "node + node list \<Rightarrow> request_graph \<Rightarrow> (error + request_graph) option" where
  "invalidate_walk w g =
     (case w of
        Inl n \<Rightarrow>
          (if node_type n \<noteq> request_t then Some (Inl InvariantFailed)
           else if hasNode g (node_id n) then
             (let g1 = g\<lparr>invalidNodeIds := set_add (node_id n) (invalidNodeIds g)\<rparr>;
                  parentNodes = getNodesConnectedTo g1 n subrequest
              in invalidate_walk (Inr parentNodes) g1)
           else Some (Inr g))
      | Inr parentNodes \<Rightarrow>
          (case parentNodes of
             [] \<Rightarrow> Some (Inr g)
           | parentNode # others \<Rightarrow>
               Option.bind (invalidate_walk (Inl parentNode) g)
                 (\<lambda>r. case r of
                    Inl e \<Rightarrow> Some (Inl e)
                  | Inr g' \<Rightarrow> invalidate_walk (Inr others) g')))"

definition invalidateNode :: "node \<Rightarrow> request_graph \<Rightarrow> (error + request_graph) option" where
  "invalidateNode n g = invalidate_walk (Inl n) g"

definition invalidateNodes :: "node list \<Rightarrow> request_graph \<Rightarrow> (error + request_graph) option" where
  "invalidateNodes ns g = invalidate_walk (Inr ns) g"

definition invalidateUnpredictableNodes :: "request_graph \<Rightarrow> (error + request_graph) option" where
  "invalidateUnpredictableNodes g =
     for_each (\<lambda>nodeId g'.
        case getNode g' nodeId of
          None \<Rightarrow> Some (Inl NullThrows)
        | Some n \<Rightarrow>
            if node_type n = file_t \<or> node_type n = glob_t then Some (Inl InvariantFailed)
            else invalidateNode n g')
       (unpredicatableNodeIds g) g"

definition invalidateEnvNodes :: "(string \<rightharpoonup> string) \<Rightarrow> request_graph \<Rightarrow> (error + request_graph) option" where
  "invalidateEnvNodes env g =
     for_each (\<lambda>nodeId g'.
        case getNode g' nodeId of
          None \<Rightarrow> Some (Inl NullThrows)
        | Some n \<Rightarrow>
            (case node_value n of
               EnvValue key val \<Rightarrow>
                 if env key \<noteq> Some val
                 then invalidateNodes (getNodesConnectedTo g' n invalidated_by_update) g'
                 else Some (Inr g')
             | _ \<Rightarrow> Some (Inl InvariantFailed)))
       (envNodeIds g) g"

definition invalidateOptionNodes ::
  "(js_value \<Rightarrow> string) \<Rightarrow> (string \<Rightarrow> js_value) \<Rightarrow> request_graph \<Rightarrow> (error + request_graph) option" where
  "invalidateOptionNodes hashFromOption opts g =
     for_each (\<lambda>nodeId g'.
        case getNode g' nodeId of
          None \<Rightarrow> Some (Inl NullThrows)
        | Some n \<Rightarrow>
            (case node_value n of
               OptionValue key hash \<Rightarrow>
                 if hashFromOption (opts key) \<noteq> hash
                 then invalidateNodes (getNodesConnectedTo g' n invalidated_by_update) g'
                 else Some (Inr g')
             | _ \<Rightarrow> Some (Inl InvariantFailed)))
       (optionNodeIds g) g"

definition ensureNode :: "request_graph \<Rightarrow> node \<Rightarrow> request_graph" where
  "ensureNode g n = (if \<not> hasNode g (node_id n) then RequestGraph_addNode g n else g)"

definition ensureEdge :: "request_graph \<Rightarrow> string \<Rightarrow> string \<Rightarrow> edge_type \<Rightarrow> request_graph" where
  "ensureEdge g a b k = (if \<not> hasEdge g a b k then addEdge g a b k else g)"

definition invalidateOnFileUpdate :: "request_graph \<Rightarrow> string \<Rightarrow> string \<Rightarrow> error + request_graph" where
  "invalidateOnFileUpdate g requestId filePath =
     (case getRequestNode g requestId of
        Inl e \<Rightarrow> Inl e
      | Inr requestNode \<Rightarrow>
          (let fileNode = nodeFromFilePath filePath;
               g1 = ensureNode g fileNode
           in Inr (ensureEdge g1 (node_id requestNode) (node_id fileNode) invalidated_by_update)))"

definition invalidateOnFileDelete :: "request_graph \<Rightarrow> string \<Rightarrow> string \<Rightarrow> error + request_graph" where
  "invalidateOnFileDelete g requestId filePath =
     (case getRequestNode g requestId of
        Inl e \<Rightarrow> Inl e
      | Inr requestNode \<Rightarrow>
          (let fileNode = nodeFromFilePath filePath;
               g1 = ensureNode g fileNode
           in Inr (ensureEdge g1 (node_id requestNode) (node_id fileNode) invalidated_by_delete)))"

text \<open>
  A \<open>FileCreateInvalidation\<close> is an object that has some of the fields \<open>glob\<close>,
  \<open>filePath\<close> with \<open>extensions\<close>, and \<open>fileName\<close> with \<open>aboveFilePath\<close>;
  the code tests the fields in this order.
\<close>

record FileCreateInvalidation =
  glob :: "string option"
  filePath :: string
  extensions :: "string list option"
  fileName :: "string option"
  aboveFilePath :: "string option"

text \<open>\<open>split c s\<close> is \<open>s.split(c)\<close> for a one-character separator.\<close>

fun split :: "char \<Rightarrow> string \<Rightarrow> string list" where
  "split c [] = [[]]"
| "split c (x # xs) =
     (if x = c then [] # split c xs
      else (case split c xs of
              [] \<Rightarrow> [[x]]
            | p # ps \<Rightarrow> (x # p) # ps))"

text \<open>
  The loop over the reversed parts of the file name: every part gets a file name
  node, and the node of the previous part gets a \<open>dirname\<close> edge to it.
\<close>

fun addFileNameParts :: "string list \<Rightarrow> node option \<Rightarrow> request_graph \<Rightarrow> node option \<times> request_graph" where
  "addFileNameParts [] lastNode g = (lastNode, g)"
| "addFileNameParts (part # parts) lastNode g =
     (let fileNameNode = nodeFromFileName part;
          g1 = ensureNode g fileNameNode;
          g2 = (case lastNode of
                  None \<Rightarrow> g1
                | Some ln \<Rightarrow> ensureEdge g1 (node_id ln) (node_id fileNameNode) dirname)
      in addFileNameParts parts (Some fileNameNode) g2)"

definition invalidateOnFileCreate ::
  "request_graph \<Rightarrow> string \<Rightarrow> FileCreateInvalidation \<Rightarrow> error + request_graph" where
  "invalidateOnFileCreate g requestId inp =
     (case getRequestNode g requestId of
        Inl e \<Rightarrow> Inl e
      | Inr requestNode \<Rightarrow>
          (let chosen =
             (case glob inp of
                Some gl \<Rightarrow> Inr (nodeFromGlob gl, g)
              | None \<Rightarrow>
                  (case extensions inp of
                     Some exts \<Rightarrow>
                       (let n = nodeFromExtensionlessFilePath (filePath inp) exts
                        in case getNode g (node_id n) of
                             None \<Rightarrow> Inr (n, g)
                           | Some n' \<Rightarrow>
                               (case node_value n' of
                                  ExtensionlessFileValue p old \<Rightarrow>
                                    (let n'' = n'\<lparr>node_value :=
                                                ExtensionlessFileValue p (new_Set (old @ exts))\<rparr>
                                     in Inr (n'', g\<lparr>nodes := (nodes g)(node_id n \<mapsto> n'')\<rparr>))
                                | _ \<Rightarrow> Inl InvariantFailed))
                   | None \<Rightarrow>
                       (case (fileName inp, aboveFilePath inp) of
                          (Some fname, Some aboveP) \<Rightarrow>
                            (let (lastNode, g1) = addFileNameParts (rev (split CHR ''/'' fname)) None g;
                                 n = nodeFromFilePath aboveP;
                                 g2 = ensureNode g1 n;
                                 g3 = (case lastNode of
                                         None \<Rightarrow> g2
                                       | Some ln \<Rightarrow>
                                           if \<not> hasEdge g2 (node_id ln) (node_id n) invalidated_by_create_above
                                           then addEdge g2 (node_id n) (node_id ln) invalidated_by_create_above
                                           else g2)
                             in Inr (n, g3))
                        | _ \<Rightarrow> Inl InvalidInvalidation)))
           in case chosen of
                Inl e \<Rightarrow> Inl e
              | Inr (n, g1) \<Rightarrow>
                  Inr (ensureEdge (ensureNode g1 n) (node_id requestNode) (node_id n)
                         invalidated_by_create)))"

definition invalidateOnStartup :: "request_graph \<Rightarrow> string \<Rightarrow> error + request_graph" where
  "invalidateOnStartup g requestId =
     (case getRequestNode g requestId of
        Inl e \<Rightarrow> Inl e
      | Inr requestNode \<Rightarrow>
          Inr (g\<lparr>unpredicatableNodeIds := set_add (node_id requestNode) (unpredicatableNodeIds g)\<rparr>))"

definition invalidateOnEnvChange ::
  "request_graph \<Rightarrow> string \<Rightarrow> string \<Rightarrow> string \<Rightarrow> error + request_graph" where
  "invalidateOnEnvChange g requestId e v =
     (case getRequestNode g requestId of
        Inl err \<Rightarrow> Inl err
      | Inr requestNode \<Rightarrow>
          (let envNode = nodeFromEnv e v;
               g1 = ensureNode g envNode
           in Inr (ensureEdge g1 (node_id requestNode) (node_id envNode) invalidated_by_update)))"

definition invalidateOnOptionChange ::
  "(js_value \<Rightarrow> string) \<Rightarrow> request_graph \<Rightarrow> string \<Rightarrow> string \<Rightarrow> js_value \<Rightarrow> error + request_graph" where
  "invalidateOnOptionChange hashFromOption g requestId opt v =
     (case getRequestNode g requestId of
        Inl err \<Rightarrow> Inl err
      | Inr requestNode \<Rightarrow>
          (let optionNode = nodeFromOption hashFromOption opt v;
               g1 = ensureNode g optionNode
           in Inr (ensureEdge g1 (node_id requestNode) (node_id optionNode) invalidated_by_update)))"

definition clearInvalidations :: "request_graph \<Rightarrow> node \<Rightarrow> request_graph" where
  "clearInvalidations g n =
     (let g1 = g\<lparr>unpredicatableNodeIds := set_delete (node_id n) (unpredicatableNodeIds g)\<rparr>;
          g2 = replaceNodesConnectedTo g1 n [] invalidated_by_update;
          g3 = replaceNodesConnectedTo g2 n [] invalidated_by_delete
      in replaceNodesConnectedTo g3 n [] invalidated_by_create)"

datatype RequestInvalidation = FileInvalidation string | EnvInvalidation string

definition getInvalidations :: "request_graph \<Rightarrow> string \<Rightarrow> error + RequestInvalidation list" where
  "getInvalidations g requestId =
     (if \<not> hasNode g requestId then Inr []
      else (case getRequestNode g requestId of
              Inl e \<Rightarrow> Inl e
            | Inr requestNode \<Rightarrow>
                Inr (List.map_filter (\<lambda>n.
                       case node_value n of
                         FileValue p \<Rightarrow> Some (FileInvalidation p)
                       | EnvValue k v \<Rightarrow> Some (EnvInvalidation k)
                       | _ \<Rightarrow> None)
                     (getNodesConnectedFrom g requestNode invalidated_by_update))))"

section \<open>The filesystem event responder\<close>

text \<open>
  \<open>path.dirname\<close>, \<open>path.basename\<close> and \<open>path.extname\<close> are Node's;
  \<open>isDirectoryInside\<close> and \<open>isGlobMatch\<close> come from \<open>@parcel/utils\<close> and
  \<open>hashFromOption\<close> from \<open>./utils\<close>. None is among the sources: they are
  parameters of the model.
\<close>

record externals =
  path_dirname :: "string \<Rightarrow> string"
  path_basename :: "string \<Rightarrow> string"
  path_extname :: "string \<Rightarrow> string"
  isDirectoryInside :: "string \<Rightarrow> string \<Rightarrow> bool"
  isGlobMatch :: "string \<Rightarrow> string \<Rightarrow> bool"
  hashFromOption :: "js_value \<Rightarrow> string"

datatype event_type = create | update | delete

record Event =
  ev_path :: string
  ev_type :: event_type

text \<open>\<open>slice_to_neg s n\<close> is \<open>s.slice(0, -n)\<close>; \<open>s.slice(0, -0)\<close> is the empty string.\<close>

definition slice_to_neg :: "string \<Rightarrow> nat \<Rightarrow> string" where
  "slice_to_neg s n = (if n = 0 then [] else take (length s - n) s)"

partial_function (option) invalidateFileNameNode ::
  "externals \<Rightarrow> node \<Rightarrow> string \<Rightarrow> request_graph \<Rightarrow> (error + request_graph) option" where
  "invalidateFileNameNode ext n fp g =
     (let dir = path_dirname ext fp;
          aboveNodes = getNodesConnectedTo g n invalidated_by_create_above
      in Option.bind
           (for_each (\<lambda>aboveNode g'.
              case node_value aboveNode of
                FileValue abovePath \<Rightarrow>
                  if isDirectoryInside ext abovePath dir
                  then invalidateNodes (getNodesConnectedTo g' aboveNode invalidated_by_create) g'
                  else Some (Inr g')
              | _ \<Rightarrow> Some (Inl InvariantFailed))
             aboveNodes g)
           (\<lambda>r. case r of
              Inl e \<Rightarrow> Some (Inl e)
            | Inr g1 \<Rightarrow>
                (let basename = path_basename ext dir
                 in case getNode g1 (''file_name: '' @ basename) of
                      None \<Rightarrow> Some (Inr g1)
                    | Some parent \<Rightarrow>
                        if hasEdge g1 (node_id parent) (node_id n) dirname
                        then (if node_type parent \<noteq> file_name_t then Some (Inl InvariantFailed)
                              else invalidateFileNameNode ext parent dir g1)
                        else Some (Inr g1))))"

definition respondToFSEvent :: "externals \<Rightarrow> Event \<Rightarrow> request_graph \<Rightarrow> (error + request_graph) option" where
  "respondToFSEvent ext ev g =
     (let fp = ev_path ev; ty = ev_type ev; found = getNode g fp
      in if found \<noteq> None \<and> (ty = create \<or> ty = update) then
           invalidateNodes (getNodesConnectedTo g (the found) invalidated_by_update) g
         else if ty = create then
           (let extension = path_extname ext fp;
                extensionlessFilePath = slice_to_neg fp (length extension);
                extensionlessFileNode = getNode g (extensionlessFileNodeId extensionlessFilePath)
            in Option.bind
                 (case extensionlessFileNode of
                    None \<Rightarrow> Some (Inr g)
                  | Some en \<Rightarrow>
                      (case node_value en of
                         ExtensionlessFileValue p exts \<Rightarrow>
                           if extension \<in> set exts
                           then invalidateNodes (getNodesConnectedTo g en invalidated_by_create) g
                           else Some (Inr g)
                       | _ \<Rightarrow> Some (Inr g)))
                 (\<lambda>r1. case r1 of
                    Inl e \<Rightarrow> Some (Inl e)
                  | Inr g1 \<Rightarrow>
                      Option.bind
                        (let basename = path_basename ext fp
                         in case getNode g1 (''file_name:'' @ basename) of
                              None \<Rightarrow> Some (Inr g1)
                            | Some fileNameNode \<Rightarrow>
                                if node_type fileNameNode = file_name_t
                                then invalidateFileNameNode ext fileNameNode fp g1
                                else Some (Inr g1))
                        (\<lambda>r2. case r2 of
                           Inl e \<Rightarrow> Some (Inl e)
                         | Inr g2 \<Rightarrow>
                             for_each (\<lambda>i g'.
                                case getNode g' i of
                                  None \<Rightarrow> Some (Inl InvariantFailed)
                                | Some globNode \<Rightarrow>
                                    (case node_value globNode of
                                       GlobValue gl \<Rightarrow>
                                         if isGlobMatch ext fp gl
                                         then invalidateNodes
                                                (getNodesConnectedTo g' globNode invalidated_by_create) g'
                                         else Some (Inr g')
                                     | _ \<Rightarrow> Some (Inl InvariantFailed)))
                               (globNodeIds g2) g2)))
         else if found \<noteq> None \<and> ty = delete then
           invalidateNodes (getNodesConnectedTo g (the found) invalidated_by_delete) g
         else Some (Inr g))"

definition respondToFSEvents ::
  "externals \<Rightarrow> Event list \<Rightarrow> request_graph \<Rightarrow> (error + bool \<times> request_graph) option" where
  "respondToFSEvents ext events g =
     (case for_each (respondToFSEvent ext) events g of
        None \<Rightarrow> None
      | Some (Inl e) \<Rightarrow> Some (Inl e)
      | Some (Inr g') \<Rightarrow> Some (Inr (invalidNodeIds g' \<noteq> [], g')))"

section \<open>RequestTracker\<close>

text \<open>
  The options hold the environment (\<open>options.env\<close>, a variable that is not set is
  \<open>None\<close>) and the other options by name. The worker farm takes no part in the
  tracker's own code. The signal is \<open>None\<close> when none was set, and otherwise says
  whether it is aborted.
\<close>

record ParcelOptions =
  env :: "string \<rightharpoonup> string"
  opts :: "string \<Rightarrow> js_value"

record RequestTracker =
  graph :: request_graph
  options :: ParcelOptions
  signal :: "bool option"

text \<open>
  Modelled from the spec: \<open>assertSignalNotAborted\<close> (\<open>./utils\<close> is not among the
  sources): "check the abort signal; on abort, fail".
\<close>

definition assertSignalNotAborted :: "bool option \<Rightarrow> error + unit" where
  "assertSignalNotAborted s = (if s = Some True then Inl Aborted else Inr ())"

definition startRequest :: "RequestTracker \<Rightarrow> StoredRequest \<Rightarrow> error + RequestTracker" where
  "startRequest t r =
     (case (if \<not> hasNode (graph t) (sr_id r)
            then Inr (RequestGraph_addNode (graph t) (nodeFromRequest r))
            else (case getRequestNode (graph t) (sr_id r) of
                    Inl e \<Rightarrow> Inl e
                  | Inr n \<Rightarrow> Inr (clearInvalidations (graph t) n))) of
        Inl e \<Rightarrow> Inl e
      | Inr g1 \<Rightarrow>
          Inr (t\<lparr>graph := g1\<lparr>incompleteNodeIds := set_add (sr_id r) (incompleteNodeIds g1),
                             invalidNodeIds := set_delete (sr_id r) (invalidNodeIds g1)\<rparr>\<rparr>))"

definition storeResult :: "RequestTracker \<Rightarrow> string \<Rightarrow> js_value \<Rightarrow> RequestTracker" where
  "storeResult t i res =
     (case getNode (graph t) i of
        None \<Rightarrow> t
      | Some n \<Rightarrow>
          (case node_value n of
             RequestValue r \<Rightarrow>
               t\<lparr>graph := (graph t)\<lparr>nodes := (nodes (graph t))
                     (i \<mapsto> n\<lparr>node_value := RequestValue (r\<lparr>sr_result := Some res\<rparr>)\<rparr>)\<rparr>\<rparr>
           | _ \<Rightarrow> t))"

definition hasValidResult :: "RequestTracker \<Rightarrow> string \<Rightarrow> bool" where
  "hasValidResult t i =
     (nodes (graph t) i \<noteq> None \<and>
      i \<notin> set (invalidNodeIds (graph t)) \<and>
      i \<notin> set (incompleteNodeIds (graph t)))"

text \<open>A request whose result was never stored has the result \<open>undefined\<close>.\<close>

definition getRequestResult :: "RequestTracker \<Rightarrow> string \<Rightarrow> error + js_value" where
  "getRequestResult t i =
     (case getNode (graph t) i of
        None \<Rightarrow> Inl NullThrows
      | Some n \<Rightarrow>
          (case node_value n of
             RequestValue r \<Rightarrow> Inr (case sr_result r of None \<Rightarrow> Undefined | Some v \<Rightarrow> v)
           | _ \<Rightarrow> Inl InvariantFailed))"

definition RequestTracker_completeRequest :: "RequestTracker \<Rightarrow> string \<Rightarrow> RequestTracker" where
  "RequestTracker_completeRequest t i =
     t\<lparr>graph := (graph t)\<lparr>invalidNodeIds := set_delete i (invalidNodeIds (graph t)),
                           incompleteNodeIds := set_delete i (incompleteNodeIds (graph t))\<rparr>\<rparr>"

definition rejectRequest :: "RequestTracker \<Rightarrow> string \<Rightarrow> RequestTracker" where
  "rejectRequest t i =
     (let g1 = (graph t)\<lparr>incompleteNodeIds := set_delete i (incompleteNodeIds (graph t))\<rparr>
      in t\<lparr>graph := (if hasNode g1 i
                       then g1\<lparr>invalidNodeIds := set_add i (invalidNodeIds g1)\<rparr>
                       else g1)\<rparr>)"

definition RequestTracker_respondToFSEvents ::
  "externals \<Rightarrow> RequestTracker \<Rightarrow> Event list \<Rightarrow> (error + bool \<times> RequestTracker) option" where
  "RequestTracker_respondToFSEvents ext t events =
     (case respondToFSEvents ext events (graph t) of
        None \<Rightarrow> None
      | Some (Inl e) \<Rightarrow> Some (Inl e)
      | Some (Inr (b, g')) \<Rightarrow> Some (Inr (b, t\<lparr>graph := g'\<rparr>)))"

definition hasInvalidRequests :: "RequestTracker \<Rightarrow> bool" where
  "hasInvalidRequests t = (invalidNodeIds (graph t) \<noteq> [])"

text \<open>\<open>nullthrows_all\<close> is \<open>ids.map(id => nullthrows(getNode(id)))\<close>.\<close>

fun nullthrows_all :: "request_graph \<Rightarrow> string list \<Rightarrow> error + node list" where
  "nullthrows_all g [] = Inr []"
| "nullthrows_all g (i # is) =
     (case getNode g i of
        None \<Rightarrow> Inl NullThrows
      | Some n \<Rightarrow> (case nullthrows_all g is of Inl e \<Rightarrow> Inl e | Inr ns \<Rightarrow> Inr (n # ns)))"

section \<open>Request bodies and the runner\<close>

text \<open>
  A request body (\<open>request.run\<close>) reaches the tracker through the \<open>api\<close> object
  only. It is modelled as the tree of its api calls: it returns, throws, or makes a
  call and goes on with what the call gave back, which is its return value or the
  error it threw (that the body may catch). A subrequest is awaited where it is
  started: the tracker's graph is owned by one task.
\<close>

datatype api_reply =
    Returned
  | Invalidations "RequestInvalidation list"
  | Resolved js_value
  | Thrown error

datatype api_call =
    InvalidateOnFileCreate FileCreateInvalidation
  | InvalidateOnFileDelete string
  | InvalidateOnFileUpdate string
  | InvalidateOnStartup
  | InvalidateOnEnvChange string
  | InvalidateOnOptionChange string
  | GetInvalidations
  | StoreResult js_value
  | RunRequest request
and request =
    Request (req_id: string) (req_type: string) (req_input: js_value) (req_run: body)
and body =
    Return js_value
  | Throw error
  | Call api_call "api_reply \<Rightarrow> body"

text \<open>
  The methods of the api object of \<open>createAPI requestId\<close> that change the graph
  without running a request.
\<close>

definition graph_reply :: "RequestTracker \<Rightarrow> error + request_graph \<Rightarrow> api_reply \<times> RequestTracker" where
  "graph_reply t r = (case r of Inl e \<Rightarrow> (Thrown e, t) | Inr g \<Rightarrow> (Returned, t\<lparr>graph := g\<rparr>))"

definition api_invalidateOnEnvChange :: "RequestTracker \<Rightarrow> string \<Rightarrow> string \<Rightarrow> error + request_graph" where
  "api_invalidateOnEnvChange t requestId e =
     invalidateOnEnvChange (graph t) requestId e
       (case env (options t) e of
          None \<Rightarrow> []
        | Some v \<Rightarrow> if v = [] then [] else v)"

definition api_invalidateOnOptionChange ::
  "externals \<Rightarrow> RequestTracker \<Rightarrow> string \<Rightarrow> string \<Rightarrow> error + request_graph" where
  "api_invalidateOnOptionChange ext t requestId opt =
     invalidateOnOptionChange (hashFromOption ext) (graph t) requestId opt (opts (options t) opt)"

text \<open>
  What is left of \<open>runRequest\<close> once the request has no valid result, given the
  function \<open>run\<close> that runs the body with the api of \<open>createAPI\<close> and gives its
  outcome, the \<open>subRequests\<close> set and the tracker: the \<open>try\<close> block, the
  \<open>catch\<close> block and the \<open>finally\<close> block, whose exception replaces the
  outcome of the other two.
\<close>

definition executeRequest ::
  "(string \<Rightarrow> string list \<Rightarrow> RequestTracker \<Rightarrow> (error + js_value) \<times> string list \<times> RequestTracker)
   \<Rightarrow> string \<Rightarrow> string \<Rightarrow> js_value \<Rightarrow> RequestTracker \<Rightarrow> (error + js_value) \<times> RequestTracker" where
  "executeRequest run i ty inp t =
     (let (outcome, subRequests, t1) =
            (case startRequest t \<lparr>sr_id = i, sr_type = ty, sr_input = inp, sr_result = None\<rparr> of
               Inl e \<Rightarrow> (Inl e, [], t)
             | Inr t0 \<Rightarrow>
                 (case run i [] t0 of
                    (Inl e, subs, tb) \<Rightarrow> (Inl e, subs, tb)
                  | (Inr v, subs, tb) \<Rightarrow>
                      (case assertSignalNotAborted (signal tb) of
                         Inl e \<Rightarrow> (Inl e, subs, tb)
                       | Inr u \<Rightarrow> (Inr v, subs, RequestTracker_completeRequest tb i))));
          t2 = (case outcome of Inl e \<Rightarrow> rejectRequest t1 i | Inr v \<Rightarrow> t1)
      in case nullthrows_all (graph t2) subRequests of
           Inl e \<Rightarrow> (Inl e, t2)
         | Inr subrequestNodes \<Rightarrow>
             (case replaceSubrequests (graph t2) i subrequestNodes of
                Inl e \<Rightarrow> (Inl e, t2)
              | Inr g \<Rightarrow> (outcome, t2\<lparr>graph := g\<rparr>)))"

primrec run_call ::
    "api_call \<Rightarrow> externals \<Rightarrow> string \<Rightarrow> string list \<Rightarrow> RequestTracker \<Rightarrow> api_reply \<times> string list \<times> RequestTracker"
  and runRequest :: "request \<Rightarrow> externals \<Rightarrow> RequestTracker \<Rightarrow> (error + js_value) \<times> RequestTracker"
  and run_body ::
    "body \<Rightarrow> externals \<Rightarrow> string \<Rightarrow> string list \<Rightarrow> RequestTracker \<Rightarrow> (error + js_value) \<times> string list \<times> RequestTracker"
where
  "run_call (InvalidateOnFileCreate inp) = (\<lambda>ext requestId subRequests t.
     case graph_reply t (invalidateOnFileCreate (graph t) requestId inp) of
       (r, t') \<Rightarrow> (r, subRequests, t'))"
| "run_call (InvalidateOnFileDelete fp) = (\<lambda>ext requestId subRequests t.
     case graph_reply t (invalidateOnFileDelete (graph t) requestId fp) of
       (r, t') \<Rightarrow> (r, subRequests, t'))"
| "run_call (InvalidateOnFileUpdate fp) = (\<lambda>ext requestId subRequests t.
     case graph_reply t (invalidateOnFileUpdate (graph t) requestId fp) of
       (r, t') \<Rightarrow> (r, subRequests, t'))"
| "run_call InvalidateOnStartup = (\<lambda>ext requestId subRequests t.
     case graph_reply t (invalidateOnStartup (graph t) requestId) of
       (r, t') \<Rightarrow> (r, subRequests, t'))"
| "run_call (InvalidateOnEnvChange e) = (\<lambda>ext requestId subRequests t.
     case graph_reply t (api_invalidateOnEnvChange t requestId e) of
       (r, t') \<Rightarrow> (r, subRequests, t'))"
| "run_call (InvalidateOnOptionChange opt) = (\<lambda>ext requestId subRequests t.
     case graph_reply t (api_invalidateOnOptionChange ext t requestId opt) of
       (r, t') \<Rightarrow> (r, subRequests, t'))"
| "run_call GetInvalidations = (\<lambda>ext requestId subRequests t.
     case getInvalidations (graph t) requestId of
       Inl e \<Rightarrow> (Thrown e, subRequests, t)
     | Inr invs \<Rightarrow> (Invalidations invs, subRequests, t))"
| "run_call (StoreResult res) = (\<lambda>ext requestId subRequests t.
     (Returned, subRequests, storeResult t requestId res))"
| "run_call (RunRequest subRequest) = (\<lambda>ext requestId subRequests t.
     case runRequest subRequest ext t of
       (Inl e, t') \<Rightarrow> (Thrown e, set_add (req_id subRequest) subRequests, t')
     | (Inr v, t') \<Rightarrow> (Resolved v, set_add (req_id subRequest) subRequests, t'))"
| "runRequest (Request i ty inp run) = (\<lambda>ext t.
     if hasValidResult t i then (getRequestResult t i, t)
     else executeRequest (run_body run ext) i ty inp t)"
| "run_body (Return v) = (\<lambda>ext requestId subRequests t. (Inr v, subRequests, t))"
| "run_body (Throw e) = (\<lambda>ext requestId subRequests t. (Inl e, subRequests, t))"
| "run_body (Call c k) = (\<lambda>ext requestId subRequests t.
     case run_call c ext requestId subRequests t of
       (reply, subRequests', t') \<Rightarrow> run_body (k reply) ext requestId subRequests' t')"

section \<open>Well-formed graphs and sample states\<close>

text \<open>
  The node map of the base graph is keyed by the id of the node it holds
  (\<open>nodes.set(node.id, node)\<close>).
\<close>

definition keyed_by_id :: "request_graph \<Rightarrow> bool" where
  "keyed_by_id g = (\<forall>i n. nodes g i = Some n \<longrightarrow> node_id n = i)"

text \<open>The \<open>subrequest\<close> edges as a relation from parent id to child id.\<close>

definition subrequest_rel :: "request_graph \<Rightarrow> (string \<times> string) set" where
  "subrequest_rel g = {(a, b). (a, b, subrequest) \<in> set (edges g)}"

text \<open>
  The edges that the tracker adds from a request (\<open>requestNode.id\<close>) start at a
  request node of the graph.
\<close>

definition request_sources :: "request_graph \<Rightarrow> bool" where
  "request_sources g =
     (\<forall>(a, b, k) \<in> set (edges g).
        k \<in> {subrequest, invalidated_by_update, invalidated_by_delete, invalidated_by_create} \<longrightarrow>
        (case nodes g a of None \<Rightarrow> False | Some n \<Rightarrow> node_type n = request_t))"

text \<open>
  What a walk that started with the invalid set \<open>xs\<close> leaves: the graph with a larger
  invalid set that holds the ids in \<open>must\<close>, and no exception when the edges start at
  request nodes.
\<close>

definition walk_post :: "request_graph \<Rightarrow> string list \<Rightarrow> string set \<Rightarrow> (error + request_graph) \<Rightarrow> bool" where
  "walk_post g xs must r =
     (case r of
        Inl e \<Rightarrow> \<not> request_sources g
      | Inr g' \<Rightarrow>
          (\<exists>ys. g' = g\<lparr>invalidNodeIds := ys\<rparr> \<and> set xs \<union> must \<subseteq> set ys \<and>
                set ys \<subseteq> set xs \<union> dom (nodes g)))"

definition ext0 :: externals where
  "ext0 = \<lparr>path_dirname = (\<lambda>p. ''/''), path_basename = (\<lambda>p. p), path_extname = (\<lambda>p. []),
           isDirectoryInside = (\<lambda>a b. False), isGlobMatch = (\<lambda>p g. False),
           hashFromOption = (\<lambda>v. [])\<rparr>"

definition empty_tracker :: RequestTracker where
  "empty_tracker =
     \<lparr>graph = empty_graph, options = \<lparr>env = Map.empty, opts = (\<lambda>k. Undefined)\<rparr>, signal = None\<rparr>"

text \<open>A request whose body runs a request of its own id.\<close>

definition self_request :: request where
  "self_request =
     Request ''P'' ''t'' Undefined
       (Call (RunRequest (Request ''P'' ''t'' Undefined (Return (Num 1)))) (\<lambda>r. Return (Num 2)))"

definition P_node :: node where
  "P_node = nodeFromRequest \<lparr>sr_id = ''P'', sr_type = ''t'', sr_input = Undefined, sr_result = None\<rparr>"

definition C_node :: node where
  "C_node = nodeFromRequest \<lparr>sr_id = ''C'', sr_type = ''t'', sr_input = Undefined, sr_result = None\<rparr>"

definition parent_child_graph :: request_graph where
  "parent_child_graph =
     empty_graph\<lparr>nodes := [''P'' \<mapsto> P_node, ''C'' \<mapsto> C_node], edges := [(''P'', ''C'', subrequest)]\<rparr>"


text \<open>The \<open>dirname\<close> edges as a relation.\<close>

definition dirname_rel :: "request_graph \<Rightarrow> (string \<times> string) set" where
  "dirname_rel g = {(a, b). (a, b, dirname) \<in> set (edges g)}"

text \<open>Every edge of the kind starts at a node of the graph that has the type.\<close>

definition typed_sources :: "request_graph \<Rightarrow> edge_type \<Rightarrow> node_type \<Rightarrow> bool" where
  "typed_sources g kd ty =
     (\<forall>(a, b, k) \<in> set (edges g). k = kd \<longrightarrow>
        (case nodes g a of None \<Rightarrow> False | Some n \<Rightarrow> node_type n = ty))"

text \<open>The ids in \<open>globNodeIds\<close> and in \<open>envNodeIds\<close> are ids of glob and env nodes.\<close>

definition glob_index :: "request_graph \<Rightarrow> bool" where
  "glob_index g =
     (\<forall>i \<in> set (globNodeIds g). case nodes g i of None \<Rightarrow> False | Some n \<Rightarrow> node_type n = glob_t)"

definition env_index :: "request_graph \<Rightarrow> bool" where
  "env_index g =
     (\<forall>i \<in> set (envNodeIds g). case nodes g i of None \<Rightarrow> False | Some n \<Rightarrow> node_type n = env_t)"

text \<open>
  The graphs on which the responder meets no failed invariant and no cycle: the
  invariants it asserts hold (the sources of the invalidation and \<open>subrequest\<close> edges
  are request nodes, those of \<open>invalidated_by_create_above\<close> edges file nodes, those of
  \<open>dirname\<close> edges file name nodes, the glob ids glob nodes), and neither the
  \<open>subrequest\<close> nor the \<open>dirname\<close> edges have a cycle.
\<close>

definition responder_ready :: "request_graph \<Rightarrow> bool" where
  "responder_ready g =
     (keyed_by_id g \<and> request_sources g \<and> acyclic (subrequest_rel g) \<and>
      typed_sources g invalidated_by_create_above file_t \<and>
      typed_sources g dirname file_name_t \<and> acyclic (dirname_rel g) \<and> glob_index g)"

text \<open>
  The requests that an event invalidates as an update: the sources of the
  \<open>invalidated_by_update\<close> edges to the node at the event's path, when there is one
  and the event is not a delete.
\<close>

definition update_targets :: "request_graph \<Rightarrow> Event \<Rightarrow> string set" where
  "update_targets g ev =
     (if hasNode g (ev_path ev) \<and> ev_type ev \<noteq> delete
      then {a. (a, ev_path ev, invalidated_by_update) \<in> set (edges g) \<and> hasNode g a}
      else {})"

text \<open>A request whose body throws.\<close>

definition failing_request :: request where
  "failing_request = Request ''C'' ''t'' Undefined (Throw (RequestFailed ''boom''))"

definition P_request :: StoredRequest where
  "P_request = \<lparr>sr_id = ''P'', sr_type = ''t'', sr_input = Undefined, sr_result = None\<rparr>"

text \<open>The graph once \<open>P\<close> is started, and once it has called \<open>invalidateOnStartup\<close>.\<close>

definition started_graph :: request_graph where
  "started_graph = empty_graph\<lparr>nodes := [''P'' \<mapsto> P_node], incompleteNodeIds := [''P'']\<rparr>"

definition startup_graph :: request_graph where
  "startup_graph = started_graph\<lparr>unpredicatableNodeIds := [''P'']\<rparr>"

text \<open>
  The operations of the tracker that move a request through its life cycle, as a
  caller may use them in any order; one that throws leaves the tracker as it was.
\<close>

datatype lifecycle_op =
    StartRequest StoredRequest
  | CompleteRequest string
  | RejectRequest string
  | StoreResultOf string js_value

fun apply_op :: "lifecycle_op \<Rightarrow> RequestTracker \<Rightarrow> RequestTracker" where
  "apply_op (StartRequest r) t = (case startRequest t r of Inl e \<Rightarrow> t | Inr t' \<Rightarrow> t')"
| "apply_op (CompleteRequest i) t = RequestTracker_completeRequest t i"
| "apply_op (RejectRequest i) t = rejectRequest t i"
| "apply_op (StoreResultOf i v) t = storeResult t i v"

definition sets_disjoint :: "RequestTracker \<Rightarrow> bool" where
  "sets_disjoint t =
     (set (invalidNodeIds (graph t)) \<inter> set (incompleteNodeIds (graph t)) = {})"

text \<open>A graph with the request \<open>P\<close> and an extensionless file node for \<open>/src/foo\<close>.\<close>

definition foo_graph :: request_graph where
  "foo_graph =
     empty_graph\<lparr>nodes := [''P'' \<mapsto> P_node,
        ''extensionless_file:/src/foo'' \<mapsto> nodeFromExtensionlessFilePath ''/src/foo'' [''.ts'']]\<rparr>"

definition foo_invalidation :: FileCreateInvalidation where
  "foo_invalidation =
     \<lparr>glob = None, filePath = ''/src/foo'', extensions = Some [''.js'', ''.ts''],
      fileName = None, aboveFilePath = None\<rparr>"

text \<open>
  A request that declares \<open>invalidateOnFileCreate\<close> for the file name
  \<open>config/app.json\<close> above \<open>/a/b/index.js\<close>, the graph after its run, and path
  functions that agree with Node's \<open>path\<close> and with \<open>isDirectoryInside\<close> on the
  paths of the event \<open>/a/config/app.json\<close>.
\<close>

definition chain_invalidation :: FileCreateInvalidation where
  "chain_invalidation =
     \<lparr>glob = None, filePath = [], extensions = None,
      fileName = Some ''config/app.json'', aboveFilePath = Some ''/a/b/index.js''\<rparr>"

definition chain_request :: request where
  "chain_request =
     Request ''P'' ''t'' Undefined
       (Call (InvalidateOnFileCreate chain_invalidation) (\<lambda>r. Return (Num 1)))"

definition chain_graph :: request_graph where
  "chain_graph =
     empty_graph\<lparr>nodes := [''P'' \<mapsto> P_node,
                  ''file_name:app.json'' \<mapsto> nodeFromFileName ''app.json'',
                  ''file_name:config'' \<mapsto> nodeFromFileName ''config'',
                  ''/a/b/index.js'' \<mapsto> nodeFromFilePath ''/a/b/index.js''],
       edges := [(''file_name:app.json'', ''file_name:config'', dirname),
                 (''/a/b/index.js'', ''file_name:config'', invalidated_by_create_above),
                 (''P'', ''/a/b/index.js'', invalidated_by_create)]\<rparr>"

definition sample_paths :: externals where
  "sample_paths =
     \<lparr>path_dirname = (\<lambda>p. if p = ''/a/config/app.json'' then ''/a/config''
                           else if p = ''/a/config'' then ''/a'' else ''/''),
      path_basename = (\<lambda>p. if p = ''/a/config/app.json'' then ''app.json''
                            else if p = ''/a/config'' then ''config''
                            else if p = ''/a'' then ''a'' else []),
      path_extname = (\<lambda>p. if p = ''/a/config/app.json'' then ''.json'' else []),
      isDirectoryInside = (\<lambda>child parent. child = ''/a/b/index.js'' \<and> (parent = ''/a'' \<or> parent = ''/'')),
      isGlobMatch = (\<lambda>p g. False),
      hashFromOption = (\<lambda>v. [])\<rparr>"

section \<open>Runs of request bodies\<close>

text \<open>
  The ids of the requests that a call, a request or a body may start: the request
  itself and the requests its body may run, whatever the api replies.
\<close>

primrec call_started :: "api_call \<Rightarrow> string set"
  and request_started :: "request \<Rightarrow> string set"
  and body_started :: "body \<Rightarrow> string set" where
  "call_started (InvalidateOnFileCreate inp) = {}"
| "call_started (InvalidateOnFileDelete fp) = {}"
| "call_started (InvalidateOnFileUpdate fp) = {}"
| "call_started InvalidateOnStartup = {}"
| "call_started (InvalidateOnEnvChange e) = {}"
| "call_started (InvalidateOnOptionChange opt) = {}"
| "call_started GetInvalidations = {}"
| "call_started (StoreResult res) = {}"
| "call_started (RunRequest r) = request_started r"
| "request_started (Request i ty inp run) = insert i (body_started run)"
| "body_started (Return v) = {}"
| "body_started (Throw e) = {}"
| "body_started (Call c k) = call_started c \<union> (\<Union>reply. body_started (k reply))"

text \<open>
  The api calls that a body makes when it runs for the request \<open>requestId\<close> from the
  tracker \<open>t\<close>, in the order in which it makes them.
\<close>

primrec calls_of ::
  "body \<Rightarrow> externals \<Rightarrow> string \<Rightarrow> string list \<Rightarrow> RequestTracker \<Rightarrow> api_call list" where
  "calls_of (Return v) = (\<lambda>ext requestId subRequests t. [])"
| "calls_of (Throw e) = (\<lambda>ext requestId subRequests t. [])"
| "calls_of (Call c k) = (\<lambda>ext requestId subRequests t.
     c # (case run_call c ext requestId subRequests t of
            (reply, subRequests', t') \<Rightarrow> calls_of (k reply) ext requestId subRequests' t'))"

definition is_run :: "api_call \<Rightarrow> bool" where
  "is_run c = (case c of RunRequest r \<Rightarrow> True | _ \<Rightarrow> False)"

text \<open>
  The stored request that \<open>runRequest\<close> hands to \<open>startRequest\<close>, the tracker once
  the request is started, and the api calls that the body of the request makes when
  the request is executed from the tracker \<open>t\<close>.
\<close>

definition stored :: "string \<Rightarrow> string \<Rightarrow> js_value \<Rightarrow> StoredRequest" where
  "stored i ty inp = \<lparr>sr_id = i, sr_type = ty, sr_input = inp, sr_result = None\<rparr>"

definition after_start :: "RequestTracker \<Rightarrow> request \<Rightarrow> RequestTracker" where
  "after_start t r =
     (case startRequest t (stored (req_id r) (req_type r) (req_input r)) of
        Inl e \<Rightarrow> t
      | Inr t0 \<Rightarrow> t0)"

definition api_calls_made :: "request \<Rightarrow> externals \<Rightarrow> RequestTracker \<Rightarrow> api_call list" where
  "api_calls_made r ext t =
     (case startRequest t (stored (req_id r) (req_type r) (req_input r)) of
        Inl e \<Rightarrow> []
      | Inr t0 \<Rightarrow> calls_of (req_run r) ext (req_id r) [] t0)"

text \<open>
  The two steps of \<open>executeRequest\<close> after the body has run: \<open>settle\<close> completes
  or rejects the request, \<open>finish\<close> is the finally block.
\<close>

definition settle ::
  "string \<Rightarrow> (error + js_value) \<times> string list \<times> RequestTracker
   \<Rightarrow> (error + js_value) \<times> string list \<times> RequestTracker" where
  "settle i r =
     (case r of
        (Inl e, subs, tb) \<Rightarrow> (Inl e, subs, rejectRequest tb i)
      | (Inr v, subs, tb) \<Rightarrow>
          (case assertSignalNotAborted (signal tb) of
             Inl e \<Rightarrow> (Inl e, subs, rejectRequest tb i)
           | Inr u \<Rightarrow> (Inr v, subs, RequestTracker_completeRequest tb i)))"

definition finish ::
  "string \<Rightarrow> (error + js_value) \<times> string list \<times> RequestTracker \<Rightarrow> (error + js_value) \<times> RequestTracker" where
  "finish i r =
     (case r of
        (outcome, subs, t2) \<Rightarrow>
          (case nullthrows_all (graph t2) subs of
             Inl e \<Rightarrow> (Inl e, t2)
           | Inr ns \<Rightarrow>
               (case replaceSubrequests (graph t2) i ns of
                  Inl e \<Rightarrow> (Inl e, t2)
                | Inr g \<Rightarrow> (outcome, t2\<lparr>graph := g\<rparr>))))"

text \<open>The targets of the \<open>subrequest\<close> edges of a request.\<close>

definition subrequest_targets :: "request_graph \<Rightarrow> string \<Rightarrow> string set" where
  "subrequest_targets g i = {b. (i, b, subrequest) \<in> set (edges g)}"

text \<open>
  Relations between the graph before and after a step: every node stays, with its
  type and id; every edge stays; the node map stays keyed by id; one edge stays.
\<close>

definition kept :: "request_graph \<Rightarrow> request_graph \<Rightarrow> bool" where
  "kept g g' =
     (\<forall>j n. nodes g j = Some n \<longrightarrow>
        (\<exists>n'. nodes g' j = Some n' \<and> node_type n' = node_type n \<and> node_id n' = node_id n))"

definition nodes_kept :: "RequestTracker \<Rightarrow> RequestTracker \<Rightarrow> bool" where
  "nodes_kept t t' = kept (graph t) (graph t')"

definition keeps_keyed :: "RequestTracker \<Rightarrow> RequestTracker \<Rightarrow> bool" where
  "keeps_keyed t t' = (keyed_by_id (graph t) \<longrightarrow> keyed_by_id (graph t'))"

definition edges_grow :: "request_graph \<Rightarrow> request_graph \<Rightarrow> bool" where
  "edges_grow g g' = (set (edges g) \<subseteq> set (edges g'))"

definition keeps_edge :: "string \<times> string \<times> edge_type \<Rightarrow> RequestTracker \<Rightarrow> RequestTracker \<Rightarrow> bool" where
  "keeps_edge e t t' =
     (keyed_by_id (graph t) \<and> e \<in> set (edges (graph t)) \<longrightarrow>
      keyed_by_id (graph t') \<and> e \<in> set (edges (graph t')))"

text \<open>
  A body that lets the error of a failed call through, the parent \<open>P\<close> that runs the
  failing request \<open>C\<close> with it, and a request that declares
  \<open>invalidateOnFileUpdate\<close> for \<open>/a/b.js\<close>, stores 42 and returns it.
\<close>

definition propagate :: "api_reply \<Rightarrow> body" where
  "propagate reply =
     (case reply of
        Thrown e \<Rightarrow> Throw e
      | Resolved v \<Rightarrow> Return v
      | _ \<Rightarrow> Return Undefined)"

definition parent_request :: request where
  "parent_request = Request ''P'' ''t'' Undefined (Call (RunRequest failing_request) propagate)"

definition update_request :: request where
  "update_request =
     Request ''P'' ''t'' Undefined
       (Call (InvalidateOnFileUpdate ''/a/b.js'')
          (\<lambda>r. Call (StoreResult (Num 42)) (\<lambda>r. Return (Num 42))))"

definition update_graph :: request_graph where
  "update_graph =
     empty_graph\<lparr>nodes := [''P'' \<mapsto> nodeFromRequest (P_request\<lparr>sr_result := Some (Num 42)\<rparr>),
                  ''/a/b.js'' \<mapsto> nodeFromFilePath ''/a/b.js''],
       edges := [(''P'', ''/a/b.js'', invalidated_by_update)]\<rparr>"

section \<open>Sets and the base graph\<close>

lemma set_set_add [simp]: "set (set_add x xs) = insert x (set xs)"
  by (auto simp: set_add_def)

lemma set_set_delete [simp]: "set (set_delete x xs) = set xs - {x}"
  by (auto simp: set_delete_def)

lemma getNodesConnectedTo_invalid [simp]:
  "getNodesConnectedTo (g\<lparr>invalidNodeIds := xs\<rparr>) n k = getNodesConnectedTo g n k"
  by (simp add: getNodesConnectedTo_def split_def cong: if_cong)

lemma in_getNodesConnectedTo:
  "p \<in> set (getNodesConnectedTo g n k) \<longleftrightarrow>
     (\<exists>a. (a, node_id n, k) \<in> set (edges g) \<and> nodes g a = Some p)"
  by (force simp: getNodesConnectedTo_def List.map_filter_def split: if_splits)

lemma parents_in_rel:
  assumes "p \<in> set (getNodesConnectedTo g n subrequest)" "keyed_by_id g"
  shows "(node_id p, node_id n) \<in> subrequest_rel g" "nodes g (node_id p) = Some p"
  using assms
  by (auto simp: in_getNodesConnectedTo subrequest_rel_def keyed_by_id_def)

lemma parents_request:
  assumes "p \<in> set (getNodesConnectedTo g n k)" "request_sources g"
    "k \<in> {subrequest, invalidated_by_update, invalidated_by_delete, invalidated_by_create}"
  shows "node_type p = request_t"
  using assms
  by (fastforce simp: in_getNodesConnectedTo request_sources_def)

section \<open>The invalidation walk\<close>

lemma walk_Inl:
  "invalidate_walk (Inl n) g =
     (if node_type n \<noteq> request_t then Some (Inl InvariantFailed)
      else if hasNode g (node_id n) then
        invalidate_walk (Inr (getNodesConnectedTo g n subrequest))
          (g\<lparr>invalidNodeIds := set_add (node_id n) (invalidNodeIds g)\<rparr>)
      else Some (Inr g))"
  by (subst invalidate_walk.simps) (simp add: Let_def)

lemma walk_Nil: "invalidate_walk (Inr []) g = Some (Inr g)"
  by (subst invalidate_walk.simps) simp

lemma walk_Cons:
  "invalidate_walk (Inr (p # ps)) g =
     (case invalidate_walk (Inl p) g of
        None \<Rightarrow> None
      | Some (Inl e) \<Rightarrow> Some (Inl e)
      | Some (Inr g') \<Rightarrow> invalidate_walk (Inr ps) g')"
  by (subst invalidate_walk.simps) (simp split: option.splits sum.splits)

lemma invalidateNodes_for_each: "invalidateNodes ps g = for_each invalidateNode ps g"
  by (induction ps arbitrary: g)
     (simp_all add: invalidateNodes_def invalidateNode_def walk_Nil walk_Cons
        split: option.splits sum.splits)

lemma walk_list:
  assumes "\<And>p xs. p \<in> set ps \<Longrightarrow>
     \<exists>r. invalidate_walk (Inl p) (g\<lparr>invalidNodeIds := xs\<rparr>) = Some r \<and> walk_post g xs {} r"
  shows "\<exists>r. invalidate_walk (Inr ps) (g\<lparr>invalidNodeIds := xs\<rparr>) = Some r \<and> walk_post g xs {} r"
  using assms
proof (induction ps arbitrary: xs)
  case Nil
  show ?case by (auto simp: walk_Nil walk_post_def intro: exI[of _ xs])
next
  case (Cons p ps)
  obtain r where r: "invalidate_walk (Inl p) (g\<lparr>invalidNodeIds := xs\<rparr>) = Some r" "walk_post g xs {} r"
    using Cons.prems[of p xs] by auto
  show ?case
  proof (cases r)
    case (Inl e)
    then show ?thesis using r by (auto simp: walk_Cons walk_post_def)
  next
    case (Inr g')
    then obtain ys where ys: "g' = g\<lparr>invalidNodeIds := ys\<rparr>" "set xs \<subseteq> set ys"
        "set ys \<subseteq> set xs \<union> dom (nodes g)"
      using r by (auto simp: walk_post_def)
    obtain r' where r': "invalidate_walk (Inr ps) (g\<lparr>invalidNodeIds := ys\<rparr>) = Some r'"
        "walk_post g ys {} r'"
      using Cons.IH[of ys] Cons.prems by auto
    have "walk_post g xs {} r'"
      using r'(2) ys unfolding walk_post_def by (cases r') (auto; blast)+
    then show ?thesis using r Inr ys r' by (auto simp: walk_Cons)
  qed
qed

lemma walk_node:
  assumes k: "keyed_by_id g" and ac: "acyclic (subrequest_rel g)"
  shows "\<exists>r. invalidate_walk (Inl n) (g\<lparr>invalidNodeIds := xs\<rparr>) = Some r \<and>
          (node_type n = request_t \<longrightarrow>
             walk_post g xs (if hasNode g (node_id n) then {node_id n} else {}) r)"
proof -
  have fin: "finite (subrequest_rel g)"
  proof -
    have "subrequest_rel g \<subseteq> (\<lambda>(a, b, k). (a, b)) ` set (edges g)"
      by (force simp: subrequest_rel_def)
    then show ?thesis by (rule finite_subset) simp
  qed
  have wf: "wf (subrequest_rel g)" using fin ac by (rule finite_acyclic_wf)
  define a where "a = node_id n"
  have "\<forall>(n::node) xs. node_id n = a \<longrightarrow>
          (\<exists>r. invalidate_walk (Inl n) (g\<lparr>invalidNodeIds := xs\<rparr>) = Some r \<and>
             (node_type n = request_t \<longrightarrow>
                walk_post g xs (if hasNode g (node_id n) then {node_id n} else {}) r))"
    using wf
  proof (induction a rule: wf_induct_rule)
    case (less a)
    show ?case
    proof (intro allI impI)
      fix n :: node and xs assume na: "node_id n = a"
      let ?gx = "g\<lparr>invalidNodeIds := xs\<rparr>"
      show "\<exists>r. invalidate_walk (Inl n) ?gx = Some r \<and>
          (node_type n = request_t \<longrightarrow>
             walk_post g xs (if hasNode g (node_id n) then {node_id n} else {}) r)"
      proof (cases "node_type n = request_t \<and> hasNode g (node_id n)")
        case False
        then show ?thesis
          by (auto simp: walk_Inl hasNode_def walk_post_def intro: exI[of _ xs])
      next
        case True
        let ?xs1 = "set_add (node_id n) xs"
        let ?ps = "getNodesConnectedTo g n subrequest"
        have step: "invalidate_walk (Inl n) ?gx = invalidate_walk (Inr ?ps) (g\<lparr>invalidNodeIds := ?xs1\<rparr>)"
          using True by (simp add: walk_Inl hasNode_def)
        have each: "\<exists>r. invalidate_walk (Inl p) (g\<lparr>invalidNodeIds := ys\<rparr>) = Some r \<and> walk_post g ys {} r"
          if "p \<in> set ?ps" for p ys
        proof -
          have rel: "(node_id p, a) \<in> subrequest_rel g"
            using parents_in_rel[OF that k] na by auto
          obtain r where r: "invalidate_walk (Inl p) (g\<lparr>invalidNodeIds := ys\<rparr>) = Some r"
            "node_type p = request_t \<longrightarrow>
               walk_post g ys (if hasNode g (node_id p) then {node_id p} else {}) r"
            using less.IH[OF rel] by blast
          show ?thesis
          proof (cases "node_type p = request_t")
            case True
            then show ?thesis using r by (cases r) (auto simp: walk_post_def)
          next
            case False
            have "\<not> request_sources g"
              using False parents_request[OF that] by auto
            moreover have "invalidate_walk (Inl p) (g\<lparr>invalidNodeIds := ys\<rparr>) = Some (Inl InvariantFailed)"
              using False by (simp add: walk_Inl)
            ultimately show ?thesis by (auto simp: walk_post_def)
          qed
        qed
        obtain r where r: "invalidate_walk (Inr ?ps) (g\<lparr>invalidNodeIds := ?xs1\<rparr>) = Some r"
            "walk_post g ?xs1 {} r"
          using walk_list[of ?ps g ?xs1] each by blast
        have "walk_post g xs {node_id n} r"
          using r(2) True unfolding walk_post_def hasNode_def by (cases r) (auto; blast)+
        then show ?thesis using step r True by auto
      qed
    qed
  qed
  then show ?thesis by (simp add: a_def)
qed

lemma walk_diverges_aux:
  assumes "invalidate_walk w g = Some r"
  shows "\<not> (hasNode g (node_id n) \<and> node_type n = request_t \<and>
            getNodesConnectedTo g n subrequest = n # qs \<and>
            (w = Inl n \<or> w = Inr (n # qs)))"
  using assms
proof (induction rule: invalidate_walk.raw_induct[rotated 1, consumes 1, case_names step])
  case (step f w g r)
  note ih = step(1) and body = step(2)
  show ?case
  proof
    assume bad: "hasNode g (node_id n) \<and> node_type n = request_t \<and>
            getNodesConnectedTo g n subrequest = n # qs \<and>
            (w = Inl n \<or> w = Inr (n # qs))"
    let ?g1 = "g\<lparr>invalidNodeIds := set_add (node_id n) (invalidNodeIds g)\<rparr>"
    from bad consider (node) "w = Inl n" | (list) "w = Inr (n # qs)" by blast
    then show False
    proof cases
      case node
      have call: "f (Inr (n # qs)) ?g1 = Some r"
        using body bad node by (simp add: Let_def)
      have "hasNode ?g1 (node_id n) \<and> node_type n = request_t \<and>
            getNodesConnectedTo ?g1 n subrequest = n # qs"
        using bad by (simp add: hasNode_def)
      with ih[OF call] show False by blast
    next
      case list
      from body list obtain r1 where r1: "f (Inl n) g = Some r1"
        by (auto simp: bind_eq_Some_conv)
      with ih[OF r1] bad show False by blast
    qed
  qed
qed

lemma walk_diverges:
  assumes "hasNode g (node_id n)" "node_type n = request_t"
    "getNodesConnectedTo g n subrequest = n # qs"
  shows "invalidateNode n g = None"
proof (cases "invalidate_walk (Inl n) g")
  case None
  then show ?thesis by (simp add: invalidateNode_def)
next
  case (Some r)
  from walk_diverges_aux[OF Some, of n qs] assms show ?thesis by simp
qed

section \<open>Sample states\<close>

lemma self_graph:
  "graph (snd (runRequest self_request ext0 empty_tracker)) =
     empty_graph\<lparr>nodes := [''P'' \<mapsto> P_node], edges := [(''P'', ''P'', subrequest)]\<rparr>"
  by (simp add: self_request_def empty_tracker_def empty_graph_def hasValidResult_def executeRequest_def
      startRequest_def hasNode_def RequestGraph_addNode_def Graph_addNode_def nodeFromRequest_def
      node_type_def assertSignalNotAborted_def RequestTracker_completeRequest_def getNode_def
      replaceSubrequests_def getRequestNode_def replaceNodesConnectedTo_def addEdge_def set_add_def
      set_delete_def clearInvalidations_def P_node_def Let_def)

lemma keyed_parent_child: "keyed_by_id parent_child_graph"
  by (simp add: keyed_by_id_def parent_child_graph_def empty_graph_def P_node_def C_node_def
      nodeFromRequest_def)

lemma acyclic_parent_child: "acyclic (subrequest_rel parent_child_graph)"
proof -
  have "subrequest_rel parent_child_graph = {(''P'', ''C'')}"
    by (auto simp: subrequest_rel_def parent_child_graph_def empty_graph_def)
  then show ?thesis by (simp add: acyclic_insert wf_acyclic)
qed

section \<open>Loops that invalidate\<close>

lemma set_new_Set_aux: "set (fold set_add xs acc) = set xs \<union> set acc"
  by (induction xs arbitrary: acc) auto

lemma set_new_Set [simp]: "set (new_Set xs) = set xs"
  by (simp add: new_Set_def set_new_Set_aux)

lemma getRequestNode_Inr:
  "getRequestNode g i = Inr n \<longleftrightarrow> nodes g i = Some n \<and> node_type n = request_t"
  by (auto simp: getRequestNode_def getNode_def split: option.splits)

lemma invalidateNodes_total:
  assumes k: "keyed_by_id g" and ac: "acyclic (subrequest_rel g)" and rs: "request_sources g"
    and req: "\<forall>p \<in> set ps. node_type p = request_t"
  shows "\<exists>ys. invalidateNodes ps (g\<lparr>invalidNodeIds := xs\<rparr>) = Some (Inr (g\<lparr>invalidNodeIds := ys\<rparr>)) \<and>
           set xs \<subseteq> set ys \<and> {node_id p |p. p \<in> set ps \<and> hasNode g (node_id p)} \<subseteq> set ys \<and>
           set ys \<subseteq> set xs \<union> dom (nodes g)"
  using req
proof (induction ps arbitrary: xs)
  case Nil
  show ?case by (auto simp: invalidateNodes_def walk_Nil intro: exI[of _ xs])
next
  case (Cons p ps)
  obtain r where r: "invalidate_walk (Inl p) (g\<lparr>invalidNodeIds := xs\<rparr>) = Some r"
    "walk_post g xs (if hasNode g (node_id p) then {node_id p} else {}) r"
    using walk_node[OF k ac, of p xs] Cons.prems by auto
  from r(2) rs obtain ys where ys: "r = Inr (g\<lparr>invalidNodeIds := ys\<rparr>)"
    "set xs \<union> (if hasNode g (node_id p) then {node_id p} else {}) \<subseteq> set ys"
    "set ys \<subseteq> set xs \<union> dom (nodes g)"
    by (cases r) (auto simp: walk_post_def)
  obtain zs where zs: "invalidateNodes ps (g\<lparr>invalidNodeIds := ys\<rparr>) = Some (Inr (g\<lparr>invalidNodeIds := zs\<rparr>))"
    "set ys \<subseteq> set zs" "{node_id p |p. p \<in> set ps \<and> hasNode g (node_id p)} \<subseteq> set zs"
    "set zs \<subseteq> set ys \<union> dom (nodes g)"
    using Cons.IH[of ys] Cons.prems by auto
  have "invalidateNodes (p # ps) (g\<lparr>invalidNodeIds := xs\<rparr>) = Some (Inr (g\<lparr>invalidNodeIds := zs\<rparr>))"
    using r(1) ys(1) zs(1) by (simp add: invalidateNodes_def walk_Cons)
  moreover have "set xs \<subseteq> set zs" using ys(2) zs(2) by auto
  moreover have "{node_id q |q. q \<in> set (p # ps) \<and> hasNode g (node_id q)} \<subseteq> set zs"
    using ys(2) zs(2,3) by (auto split: if_splits)
  moreover have "set zs \<subseteq> set xs \<union> dom (nodes g)" using ys(3) zs(4) by auto
  ultimately show ?case by blast
qed

text \<open>Invalidating the requests that an edge of kind k leads to the node n from.\<close>

lemma invalidate_connected:
  assumes k: "keyed_by_id g" and ac: "acyclic (subrequest_rel g)" and rs: "request_sources g"
    and kind: "kd \<in> {subrequest, invalidated_by_update, invalidated_by_delete, invalidated_by_create}"
  shows "\<exists>ys. invalidateNodes (getNodesConnectedTo (g\<lparr>invalidNodeIds := xs\<rparr>) n kd) (g\<lparr>invalidNodeIds := xs\<rparr>)
              = Some (Inr (g\<lparr>invalidNodeIds := ys\<rparr>)) \<and>
           set xs \<subseteq> set ys \<and> {a. (a, node_id n, kd) \<in> set (edges g) \<and> hasNode g a} \<subseteq> set ys \<and>
           set ys \<subseteq> set xs \<union> dom (nodes g)"
proof -
  let ?ps = "getNodesConnectedTo g n kd"
  have req: "\<forall>p \<in> set ?ps. node_type p = request_t"
    using parents_request[OF _ rs kind] by blast
  obtain ys where ys: "invalidateNodes ?ps (g\<lparr>invalidNodeIds := xs\<rparr>) = Some (Inr (g\<lparr>invalidNodeIds := ys\<rparr>))"
    "set xs \<subseteq> set ys" "{node_id p |p. p \<in> set ?ps \<and> hasNode g (node_id p)} \<subseteq> set ys"
    "set ys \<subseteq> set xs \<union> dom (nodes g)"
    using invalidateNodes_total[OF k ac rs req, of xs] by blast
  have "{a. (a, node_id n, kd) \<in> set (edges g) \<and> hasNode g a} \<subseteq> {node_id p |p. p \<in> set ?ps \<and> hasNode g (node_id p)}"
  proof
    fix a assume "a \<in> {a. (a, node_id n, kd) \<in> set (edges g) \<and> hasNode g a}"
    then have e: "(a, node_id n, kd) \<in> set (edges g)" and h: "hasNode g a" by auto
    from h obtain p where p: "nodes g a = Some p" by (auto simp: hasNode_def)
    then have "node_id p = a" using k by (auto simp: keyed_by_id_def)
    moreover have "p \<in> set ?ps" using e p by (auto simp: in_getNodesConnectedTo)
    ultimately show "a \<in> {node_id p |p. p \<in> set ?ps \<and> hasNode g (node_id p)}" using h by auto
  qed
  with ys show ?thesis by (intro exI[of _ ys]) auto
qed

text \<open>A loop whose body only enlarges the invalid set.\<close>

lemma for_each_invalid:
  assumes "\<And>x xs. x \<in> set l \<Longrightarrow>
      \<exists>ys. f x (g\<lparr>invalidNodeIds := xs\<rparr>) = Some (Inr (g\<lparr>invalidNodeIds := ys\<rparr>)) \<and>
           set xs \<subseteq> set ys \<and> M x \<subseteq> set ys \<and> set ys \<subseteq> set xs \<union> dom (nodes g)"
  shows "\<exists>ys. for_each f l (g\<lparr>invalidNodeIds := xs\<rparr>) = Some (Inr (g\<lparr>invalidNodeIds := ys\<rparr>)) \<and>
           set xs \<subseteq> set ys \<and> (\<Union>x \<in> set l. M x) \<subseteq> set ys \<and> set ys \<subseteq> set xs \<union> dom (nodes g)"
  using assms
proof (induction l arbitrary: xs)
  case Nil
  show ?case by (auto intro: exI[of _ xs])
next
  case (Cons x l)
  obtain ys where ys: "f x (g\<lparr>invalidNodeIds := xs\<rparr>) = Some (Inr (g\<lparr>invalidNodeIds := ys\<rparr>))"
    "set xs \<subseteq> set ys" "M x \<subseteq> set ys" "set ys \<subseteq> set xs \<union> dom (nodes g)"
    using Cons.prems[of x xs] by auto
  obtain zs where zs: "for_each f l (g\<lparr>invalidNodeIds := ys\<rparr>) = Some (Inr (g\<lparr>invalidNodeIds := zs\<rparr>))"
    "set ys \<subseteq> set zs" "(\<Union>x \<in> set l. M x) \<subseteq> set zs" "set zs \<subseteq> set ys \<union> dom (nodes g)"
    using Cons.IH[of ys] Cons.prems by auto
  have "for_each f (x # l) (g\<lparr>invalidNodeIds := xs\<rparr>) = Some (Inr (g\<lparr>invalidNodeIds := zs\<rparr>))"
    using ys(1) zs(1) by simp
  moreover have "set xs \<subseteq> set zs" using ys(2) zs(2) by auto
  moreover have "(\<Union>x \<in> set (x # l). M x) \<subseteq> set zs" using ys(3) zs(2,3) by auto
  moreover have "set zs \<subseteq> set xs \<union> dom (nodes g)" using ys(4) zs(4) by auto
  ultimately show ?case by blast
qed

lemma hasNode_invalid [simp]: "hasNode (g\<lparr>invalidNodeIds := xs\<rparr>) i = hasNode g i"
  by (simp add: hasNode_def)

lemma getNode_invalid [simp]: "getNode (g\<lparr>invalidNodeIds := xs\<rparr>) i = getNode g i"
  by (simp add: getNode_def)

lemma hasEdge_invalid [simp]: "hasEdge (g\<lparr>invalidNodeIds := xs\<rparr>) a b k = hasEdge g a b k"
  by (simp add: hasEdge_def)

lemma node_type_file: "node_type n = file_t \<Longrightarrow> \<exists>p. node_value n = FileValue p"
  by (cases "node_value n") (simp_all add: node_type_def)

lemma node_type_glob: "node_type n = glob_t \<Longrightarrow> \<exists>p. node_value n = GlobValue p"
  by (cases "node_value n") (simp_all add: node_type_def)

lemma fileName_step:
  "invalidateFileNameNode ext n fp g =
     (case for_each (\<lambda>aboveNode g'.
              case node_value aboveNode of
                FileValue abovePath \<Rightarrow>
                  if isDirectoryInside ext abovePath (path_dirname ext fp)
                  then invalidateNodes (getNodesConnectedTo g' aboveNode invalidated_by_create) g'
                  else Some (Inr g')
              | _ \<Rightarrow> Some (Inl InvariantFailed))
             (getNodesConnectedTo g n invalidated_by_create_above) g of
        None \<Rightarrow> None
      | Some (Inl e) \<Rightarrow> Some (Inl e)
      | Some (Inr g1) \<Rightarrow>
          (case getNode g1 (''file_name: '' @ path_basename ext (path_dirname ext fp)) of
             None \<Rightarrow> Some (Inr g1)
           | Some parent \<Rightarrow>
               if hasEdge g1 (node_id parent) (node_id n) dirname
               then (if node_type parent \<noteq> file_name_t then Some (Inl InvariantFailed)
                     else invalidateFileNameNode ext parent (path_dirname ext fp) g1)
               else Some (Inr g1)))"
  by (subst invalidateFileNameNode.simps) (simp add: Let_def split: option.splits sum.splits)

lemma fileName_total:
  assumes rr: "responder_ready g"
  shows "\<exists>ys. invalidateFileNameNode ext n fp (g\<lparr>invalidNodeIds := xs\<rparr>) = Some (Inr (g\<lparr>invalidNodeIds := ys\<rparr>)) \<and>
           set xs \<subseteq> set ys \<and> set ys \<subseteq> set xs \<union> dom (nodes g)"
proof -
  from rr have k: "keyed_by_id g" and rs: "request_sources g" and ac: "acyclic (subrequest_rel g)"
    and ab: "typed_sources g invalidated_by_create_above file_t"
    and dn: "typed_sources g dirname file_name_t" and acd: "acyclic (dirname_rel g)"
    by (auto simp: responder_ready_def)
  have fin: "finite (dirname_rel g)"
  proof -
    have "dirname_rel g \<subseteq> (\<lambda>(a, b, k). (a, b)) ` set (edges g)"
      by (force simp: dirname_rel_def)
    then show ?thesis by (rule finite_subset) simp
  qed
  have wf: "wf (dirname_rel g)" using fin acd by (rule finite_acyclic_wf)
  define a where "a = node_id n"
  have "\<forall>(n::node) fp xs. node_id n = a \<longrightarrow>
     (\<exists>ys. invalidateFileNameNode ext n fp (g\<lparr>invalidNodeIds := xs\<rparr>) = Some (Inr (g\<lparr>invalidNodeIds := ys\<rparr>)) \<and>
           set xs \<subseteq> set ys \<and> set ys \<subseteq> set xs \<union> dom (nodes g))"
    using wf
  proof (induction a rule: wf_induct_rule)
    case (less a)
    show ?case
    proof (intro allI impI)
      fix n :: node and fp xs assume na: "node_id n = a"
      let ?dir = "path_dirname ext fp"
      let ?body = "\<lambda>aboveNode g'.
              case node_value aboveNode of
                FileValue abovePath \<Rightarrow>
                  if isDirectoryInside ext abovePath ?dir
                  then invalidateNodes (getNodesConnectedTo g' aboveNode invalidated_by_create) g'
                  else Some (Inr g')
              | _ \<Rightarrow> Some (Inl InvariantFailed)"
      let ?above = "getNodesConnectedTo g n invalidated_by_create_above"
      have each: "\<exists>ys. ?body x (g\<lparr>invalidNodeIds := zs\<rparr>) = Some (Inr (g\<lparr>invalidNodeIds := ys\<rparr>)) \<and>
           set zs \<subseteq> set ys \<and> {} \<subseteq> set ys \<and> set ys \<subseteq> set zs \<union> dom (nodes g)"
        if "x \<in> set ?above" for x zs
      proof -
        have "node_type x = file_t"
          using that ab by (fastforce simp: in_getNodesConnectedTo typed_sources_def)
        then obtain p where p: "node_value x = FileValue p" using node_type_file by blast
        show ?thesis
        proof (cases "isDirectoryInside ext p ?dir")
          case True
          then show ?thesis
            using invalidate_connected[OF k ac rs, of invalidated_by_create zs x] p by auto
        next
          case False
          then show ?thesis using p by (auto intro: exI[of _ zs])
        qed
      qed
      obtain ys where ys: "for_each ?body ?above (g\<lparr>invalidNodeIds := xs\<rparr>) = Some (Inr (g\<lparr>invalidNodeIds := ys\<rparr>))"
        "set xs \<subseteq> set ys" "set ys \<subseteq> set xs \<union> dom (nodes g)"
        using for_each_invalid[of ?above ?body g "\<lambda>x. {}" xs] each by auto
      let ?g1 = "g\<lparr>invalidNodeIds := ys\<rparr>"
      let ?pid = "''file_name: '' @ path_basename ext ?dir"
      show "\<exists>ys. invalidateFileNameNode ext n fp (g\<lparr>invalidNodeIds := xs\<rparr>) = Some (Inr (g\<lparr>invalidNodeIds := ys\<rparr>)) \<and>
           set xs \<subseteq> set ys \<and> set ys \<subseteq> set xs \<union> dom (nodes g)"
      proof (cases "getNode g ?pid")
        case None
        then have "invalidateFileNameNode ext n fp (g\<lparr>invalidNodeIds := xs\<rparr>) = Some (Inr ?g1)"
          using ys(1) by (subst fileName_step) simp
        then show ?thesis using ys by blast
      next
        case (Some parent)
        show ?thesis
        proof (cases "hasEdge g (node_id parent) (node_id n) dirname")
          case False
          then have "invalidateFileNameNode ext n fp (g\<lparr>invalidNodeIds := xs\<rparr>) = Some (Inr ?g1)"
            using ys(1) Some by (subst fileName_step) simp
          then show ?thesis using ys by blast
        next
          case True
          have pid: "node_id parent = ?pid" using Some k by (auto simp: keyed_by_id_def getNode_def)
          have rel: "(node_id parent, a) \<in> dirname_rel g"
            using True na by (simp add: dirname_rel_def hasEdge_def)
          have ty: "node_type parent = file_name_t"
            using True dn Some pid by (fastforce simp: typed_sources_def hasEdge_def getNode_def)
          obtain zs where zs: "invalidateFileNameNode ext parent ?dir ?g1 = Some (Inr (g\<lparr>invalidNodeIds := zs\<rparr>))"
            "set ys \<subseteq> set zs" "set zs \<subseteq> set ys \<union> dom (nodes g)"
            using less.IH[OF rel] by blast
          have "invalidateFileNameNode ext n fp (g\<lparr>invalidNodeIds := xs\<rparr>) = Some (Inr (g\<lparr>invalidNodeIds := zs\<rparr>))"
            using ys(1) Some True ty zs(1) by (subst fileName_step) simp
          moreover have "set xs \<subseteq> set zs" using ys(2) zs(2) by auto
          moreover have "set zs \<subseteq> set xs \<union> dom (nodes g)" using ys(3) zs(3) by auto
          ultimately show ?thesis by blast
        qed
      qed
    qed
  qed
  then show ?thesis by (simp add: a_def)
qed

lemma respondToFSEvent_total:
  assumes rr: "responder_ready g"
  shows "\<exists>ys. respondToFSEvent ext ev (g\<lparr>invalidNodeIds := xs\<rparr>) = Some (Inr (g\<lparr>invalidNodeIds := ys\<rparr>)) \<and>
           set xs \<subseteq> set ys \<and> update_targets g ev \<subseteq> set ys \<and> set ys \<subseteq> set xs \<union> dom (nodes g)"
proof -
  from rr have k: "keyed_by_id g" and rs: "request_sources g" and ac: "acyclic (subrequest_rel g)"
    and gi: "glob_index g"
    by (auto simp: responder_ready_def)
  let ?gx = "g\<lparr>invalidNodeIds := xs\<rparr>"
  let ?fp = "ev_path ev"
  show ?thesis
  proof (cases "getNode g ?fp \<noteq> None \<and> (ev_type ev = create \<or> ev_type ev = update)")
    case True
    then obtain n where n: "getNode g ?fp = Some n" by auto
    then have nid: "node_id n = ?fp" using k by (auto simp: keyed_by_id_def getNode_def)
    have eq: "respondToFSEvent ext ev ?gx = invalidateNodes (getNodesConnectedTo ?gx n invalidated_by_update) ?gx"
      using True n by (simp add: respondToFSEvent_def Let_def)
    have "update_targets g ev \<subseteq> {a. (a, node_id n, invalidated_by_update) \<in> set (edges g) \<and> hasNode g a}"
      by (auto simp: update_targets_def nid)
    then show ?thesis
      using invalidate_connected[OF k ac rs, of invalidated_by_update xs n] eq by auto
  next
    case notupd: False
    show ?thesis
    proof (cases "ev_type ev = create")
      case True
      then have none: "getNode g ?fp = None" using notupd by auto
      have ut: "update_targets g ev = {}"
        using none by (simp add: update_targets_def hasNode_def getNode_def)
      let ?ext = "path_extname ext ?fp"
      let ?en = "getNode g (extensionlessFileNodeId (slice_to_neg ?fp (length ?ext)))"
      let ?probe1 = "(case ?en of
                    None \<Rightarrow> Some (Inr ?gx)
                  | Some en \<Rightarrow>
                      (case node_value en of
                         ExtensionlessFileValue p exts \<Rightarrow>
                           if ?ext \<in> set exts
                           then invalidateNodes (getNodesConnectedTo ?gx en invalidated_by_create) ?gx
                           else Some (Inr ?gx)
                       | _ \<Rightarrow> Some (Inr ?gx)))"
      have p1: "\<exists>ys. ?probe1 = Some (Inr (g\<lparr>invalidNodeIds := ys\<rparr>)) \<and> set xs \<subseteq> set ys \<and>
                  set ys \<subseteq> set xs \<union> dom (nodes g)"
      proof (cases ?en)
        case None
        then show ?thesis by (auto intro: exI[of _ xs])
      next
        case (Some en)
        show ?thesis
        proof (cases "node_value en")
          case (ExtensionlessFileValue p exts)
          show ?thesis
          proof (cases "?ext \<in> set exts")
            case True
            then show ?thesis
              using invalidate_connected[OF k ac rs, of invalidated_by_create xs en] Some ExtensionlessFileValue
              by auto
          next
            case False
            then show ?thesis using Some ExtensionlessFileValue by (auto intro: exI[of _ xs])
          qed
        qed (use Some in \<open>auto intro: exI[of _ xs]\<close>)
      qed
      then obtain ys1 where ys1: "?probe1 = Some (Inr (g\<lparr>invalidNodeIds := ys1\<rparr>))" "set xs \<subseteq> set ys1"
        "set ys1 \<subseteq> set xs \<union> dom (nodes g)" by blast
      let ?g1 = "g\<lparr>invalidNodeIds := ys1\<rparr>"
      let ?probe2 = "(case getNode ?g1 (''file_name:'' @ path_basename ext ?fp) of
                              None \<Rightarrow> Some (Inr ?g1)
                            | Some fileNameNode \<Rightarrow>
                                if node_type fileNameNode = file_name_t
                                then invalidateFileNameNode ext fileNameNode ?fp ?g1
                                else Some (Inr ?g1))"
      have p2: "\<exists>ys. ?probe2 = Some (Inr (g\<lparr>invalidNodeIds := ys\<rparr>)) \<and> set ys1 \<subseteq> set ys \<and>
                  set ys \<subseteq> set ys1 \<union> dom (nodes g)"
      proof (cases "getNode g (''file_name:'' @ path_basename ext ?fp)")
        case None
        then show ?thesis by (auto intro: exI[of _ ys1])
      next
        case (Some fnn)
        show ?thesis
        proof (cases "node_type fnn = file_name_t")
          case True
          then show ?thesis using fileName_total[OF rr, of ext fnn ?fp ys1] Some by auto
        next
          case False
          then show ?thesis using Some by (auto intro: exI[of _ ys1])
        qed
      qed
      then obtain ys2 where ys2: "?probe2 = Some (Inr (g\<lparr>invalidNodeIds := ys2\<rparr>))" "set ys1 \<subseteq> set ys2"
        "set ys2 \<subseteq> set ys1 \<union> dom (nodes g)" by blast
      let ?g2 = "g\<lparr>invalidNodeIds := ys2\<rparr>"
      let ?body = "\<lambda>i g'.
                                case getNode g' i of
                                  None \<Rightarrow> Some (Inl InvariantFailed)
                                | Some globNode \<Rightarrow>
                                    (case node_value globNode of
                                       GlobValue gl \<Rightarrow>
                                         if isGlobMatch ext ?fp gl
                                         then invalidateNodes
                                                (getNodesConnectedTo g' globNode invalidated_by_create) g'
                                         else Some (Inr g')
                                     | _ \<Rightarrow> Some (Inl InvariantFailed))"
      have each: "\<exists>ys. ?body i (g\<lparr>invalidNodeIds := zs\<rparr>) = Some (Inr (g\<lparr>invalidNodeIds := ys\<rparr>)) \<and>
           set zs \<subseteq> set ys \<and> {} \<subseteq> set ys \<and> set ys \<subseteq> set zs \<union> dom (nodes g)"
        if "i \<in> set (globNodeIds g)" for i zs
      proof -
        have "case nodes g i of None \<Rightarrow> False | Some n \<Rightarrow> node_type n = glob_t"
          using gi that unfolding glob_index_def by blast
        then obtain gn where gn: "nodes g i = Some gn" "node_type gn = glob_t"
          by (cases "nodes g i") auto
        then obtain gl where gl: "node_value gn = GlobValue gl" using node_type_glob by blast
        show ?thesis
        proof (cases "isGlobMatch ext ?fp gl")
          case True
          then show ?thesis
            using invalidate_connected[OF k ac rs, of invalidated_by_create zs gn] gn gl
            by (auto simp: getNode_def)
        next
          case False
          then show ?thesis using gn gl by (auto simp: getNode_def intro: exI[of _ zs])
        qed
      qed
      obtain ys3 where ys3: "for_each ?body (globNodeIds g) ?g2 = Some (Inr (g\<lparr>invalidNodeIds := ys3\<rparr>))"
        "set ys2 \<subseteq> set ys3" "set ys3 \<subseteq> set ys2 \<union> dom (nodes g)"
        using for_each_invalid[of "globNodeIds g" ?body g "\<lambda>x. {}" ys2] each by auto
      have "respondToFSEvent ext ev ?gx = Some (Inr (g\<lparr>invalidNodeIds := ys3\<rparr>))"
        using True none ys1(1) ys2(1) ys3(1)
        by (simp add: respondToFSEvent_def Let_def)
      moreover have "set xs \<subseteq> set ys3" using ys1(2) ys2(2) ys3(2) by auto
      moreover have "set ys3 \<subseteq> set xs \<union> dom (nodes g)" using ys1(3) ys2(3) ys3(3) by auto
      ultimately show ?thesis using ut by auto
    next
      case notcreate: False
      show ?thesis
      proof (cases "getNode g ?fp \<noteq> None \<and> ev_type ev = delete")
        case True
        then obtain n where n: "getNode g ?fp = Some n" by auto
        have eq: "respondToFSEvent ext ev ?gx = invalidateNodes (getNodesConnectedTo ?gx n invalidated_by_delete) ?gx"
          using True n by (simp add: respondToFSEvent_def Let_def)
        have "update_targets g ev = {}" using True by (simp add: update_targets_def)
        then show ?thesis
          using invalidate_connected[OF k ac rs, of invalidated_by_delete xs n] eq by auto
      next
        case False
        then have "respondToFSEvent ext ev ?gx = Some (Inr ?gx)"
          using notupd notcreate by (auto simp: respondToFSEvent_def Let_def)
        moreover have "update_targets g ev = {}"
          using notupd notcreate False
          by (cases "ev_type ev") (auto simp: update_targets_def hasNode_def getNode_def)
        ultimately show ?thesis by (auto intro: exI[of _ xs])
      qed
    qed
  qed
qed

lemma respondToFSEvents_total:
  assumes rr: "responder_ready g"
  shows "\<exists>ys. respondToFSEvents ext evs g = Some (Inr (ys \<noteq> [], g\<lparr>invalidNodeIds := ys\<rparr>)) \<and>
           set (invalidNodeIds g) \<subseteq> set ys \<and> (\<Union>ev \<in> set evs. update_targets g ev) \<subseteq> set ys \<and>
           set ys \<subseteq> set (invalidNodeIds g) \<union> dom (nodes g)"
proof -
  obtain ys where ys: "for_each (respondToFSEvent ext) evs (g\<lparr>invalidNodeIds := invalidNodeIds g\<rparr>) =
       Some (Inr (g\<lparr>invalidNodeIds := ys\<rparr>))"
     "set (invalidNodeIds g) \<subseteq> set ys" "(\<Union>ev \<in> set evs. update_targets g ev) \<subseteq> set ys"
     "set ys \<subseteq> set (invalidNodeIds g) \<union> dom (nodes g)"
    using for_each_invalid[of evs "respondToFSEvent ext" g "update_targets g" "invalidNodeIds g"]
      respondToFSEvent_total[OF rr] by blast
  then show ?thesis by (intro exI[of _ ys]) (simp add: respondToFSEvents_def)
qed

lemmas run_defs =
  empty_tracker_def empty_graph_def hasValidResult_def executeRequest_def
  startRequest_def hasNode_def RequestGraph_addNode_def Graph_addNode_def nodeFromRequest_def
  node_type_def assertSignalNotAborted_def RequestTracker_completeRequest_def getNode_def
  replaceSubrequests_def getRequestNode_def replaceNodesConnectedTo_def addEdge_def set_add_def
  set_delete_def clearInvalidations_def rejectRequest_def Let_def

lemma rejected_graph:
  "graph (snd (runRequest failing_request ext0 empty_tracker)) =
     empty_graph\<lparr>nodes := [''C'' \<mapsto> C_node], invalidNodeIds := [''C'']\<rparr>"
  by (simp add: failing_request_def C_node_def run_defs)

lemma responder_ready_parent_child: "responder_ready parent_child_graph"
proof -
  have "dirname_rel parent_child_graph = {}"
    by (auto simp: dirname_rel_def parent_child_graph_def empty_graph_def)
  then have "acyclic (dirname_rel parent_child_graph)" by (simp add: wf_acyclic)
  moreover have "request_sources parent_child_graph"
    by (simp add: request_sources_def parent_child_graph_def empty_graph_def P_node_def
        nodeFromRequest_def node_type_def)
  moreover have "typed_sources parent_child_graph invalidated_by_create_above file_t"
    "typed_sources parent_child_graph dirname file_name_t" "glob_index parent_child_graph"
    by (simp_all add: typed_sources_def glob_index_def parent_child_graph_def empty_graph_def)
  ultimately show ?thesis
    using keyed_parent_child acyclic_parent_child by (simp add: responder_ready_def)
qed

lemma nodes_ensureNode:
  "nodes (ensureNode g n) = (if hasNode g (node_id n) then nodes g else (nodes g)(node_id n \<mapsto> n))"
  by (auto simp add: ensureNode_def RequestGraph_addNode_def Graph_addNode_def hasNode_def Let_def)

lemma edges_ensureNode [simp]: "edges (ensureNode g n) = edges g"
  by (simp add: ensureNode_def RequestGraph_addNode_def Graph_addNode_def hasNode_def Let_def)

lemma invalid_ensureNode [simp]: "invalidNodeIds (ensureNode g n) = invalidNodeIds g"
  by (simp add: ensureNode_def RequestGraph_addNode_def Graph_addNode_def hasNode_def Let_def)

lemma incomplete_ensureNode [simp]: "incompleteNodeIds (ensureNode g n) = incompleteNodeIds g"
  by (simp add: ensureNode_def RequestGraph_addNode_def Graph_addNode_def hasNode_def Let_def)

lemma envNodeIds_ensureNode:
  "set (envNodeIds (ensureNode g n)) =
     (if \<not> hasNode g (node_id n) \<and> node_type n = env_t
      then insert (node_id n) (set (envNodeIds g)) else set (envNodeIds g))"
  by (simp add: ensureNode_def RequestGraph_addNode_def Graph_addNode_def hasNode_def Let_def)

lemma nodes_ensureEdge [simp]: "nodes (ensureEdge g a b k) = nodes g"
  by (simp add: ensureEdge_def addEdge_def)

lemma edges_ensureEdge [simp]: "set (edges (ensureEdge g a b k)) = insert (a, b, k) (set (edges g))"
  by (auto simp: ensureEdge_def addEdge_def hasEdge_def)

lemma invalid_ensureEdge [simp]: "invalidNodeIds (ensureEdge g a b k) = invalidNodeIds g"
  by (simp add: ensureEdge_def addEdge_def)

lemma incomplete_ensureEdge [simp]: "incompleteNodeIds (ensureEdge g a b k) = incompleteNodeIds g"
  by (simp add: ensureEdge_def addEdge_def)

lemma envNodeIds_ensureEdge [simp]: "envNodeIds (ensureEdge g a b k) = envNodeIds g"
  by (simp add: ensureEdge_def addEdge_def)

lemma keyed_ensureNode: "keyed_by_id g \<Longrightarrow> keyed_by_id (ensureNode g n)"
  by (auto simp: keyed_by_id_def nodes_ensureNode)

lemma keyed_ensureEdge [simp]: "keyed_by_id (ensureEdge g a b k) = keyed_by_id g"
  by (simp add: keyed_by_id_def)

lemma request_sourcesD:
  assumes "request_sources g" "(a, b, k) \<in> set (edges g)"
    "k \<in> {subrequest, invalidated_by_update, invalidated_by_delete, invalidated_by_create}"
  shows "\<exists>n. nodes g a = Some n \<and> node_type n = request_t"
proof -
  have "case nodes g a of None \<Rightarrow> False | Some n \<Rightarrow> node_type n = request_t"
    using assms unfolding request_sources_def by blast
  then show ?thesis by (cases "nodes g a") auto
qed

lemma request_sourcesI:
  assumes "\<And>a b k. (a, b, k) \<in> set (edges g) \<Longrightarrow>
     k \<in> {subrequest, invalidated_by_update, invalidated_by_delete, invalidated_by_create} \<Longrightarrow>
     \<exists>n. nodes g a = Some n \<and> node_type n = request_t"
  shows "request_sources g"
  unfolding request_sources_def
proof (intro ballI, clarify)
  fix a b k
  assume "(a, b, k) \<in> set (edges g)"
    "k \<in> {subrequest, invalidated_by_update, invalidated_by_delete, invalidated_by_create}"
  from assms[OF this] show "case nodes g a of None \<Rightarrow> False | Some n \<Rightarrow> node_type n = request_t"
    by auto
qed

lemma request_sources_ensureNode:
  assumes "request_sources g"
  shows "request_sources (ensureNode g n)"
proof (rule request_sourcesI)
  fix a b k
  assume "(a, b, k) \<in> set (edges (ensureNode g n))"
    "k \<in> {subrequest, invalidated_by_update, invalidated_by_delete, invalidated_by_create}"
  then obtain m where "nodes g a = Some m" "node_type m = request_t"
    using request_sourcesD[OF assms, of a b k] by auto
  then show "\<exists>n'. nodes (ensureNode g n) a = Some n' \<and> node_type n' = request_t"
    by (auto simp: nodes_ensureNode hasNode_def)
qed

lemma request_sources_ensureEdge:
  assumes "request_sources g" "nodes g a = Some n" "node_type n = request_t"
  shows "request_sources (ensureEdge g a b k)"
proof (rule request_sourcesI)
  fix a' b' k'
  assume e: "(a', b', k') \<in> set (edges (ensureEdge g a b k))"
    and kk: "k' \<in> {subrequest, invalidated_by_update, invalidated_by_delete, invalidated_by_create}"
  show "\<exists>n'. nodes (ensureEdge g a b k) a' = Some n' \<and> node_type n' = request_t"
  proof (cases "(a', b', k') = (a, b, k)")
    case True
    then show ?thesis using assms by simp
  next
    case False
    then have "(a', b', k') \<in> set (edges g)" using e by auto
    from request_sourcesD[OF assms(1) this kk] show ?thesis by simp
  qed
qed

lemma subrequest_rel_ensureNode [simp]: "subrequest_rel (ensureNode g n) = subrequest_rel g"
  by (simp add: subrequest_rel_def)

lemma subrequest_rel_ensureEdge:
  "k \<noteq> subrequest \<Longrightarrow> subrequest_rel (ensureEdge g a b k) = subrequest_rel g"
  by (auto simp: subrequest_rel_def)

lemma env_index_ensureNode: "env_index g \<Longrightarrow> env_index (ensureNode g n)"
  unfolding env_index_def
  by (auto simp: nodes_ensureNode envNodeIds_ensureNode hasNode_def split: option.splits if_splits)

lemma env_index_ensureEdge [simp]: "env_index (ensureEdge g a b k) = env_index g"
  by (simp add: env_index_def)

lemma node_type_env: "node_type n = env_t \<Longrightarrow> \<exists>k v. node_value n = EnvValue k v"
  by (cases "node_value n") (simp_all add: node_type_def)

lemma invalidateEnvNodes_total:
  assumes k: "keyed_by_id g" and rs: "request_sources g" and ac: "acyclic (subrequest_rel g)"
    and ei: "env_index g"
  shows "\<exists>ys. invalidateEnvNodes cur g = Some (Inr (g\<lparr>invalidNodeIds := ys\<rparr>)) \<and>
           set (invalidNodeIds g) \<subseteq> set ys \<and>
           (\<Union>i \<in> set (envNodeIds g).
              case nodes g i of
                None \<Rightarrow> {}
              | Some n \<Rightarrow>
                  (case node_value n of
                     EnvValue key val \<Rightarrow>
                       if cur key \<noteq> Some val
                       then {a. (a, i, invalidated_by_update) \<in> set (edges g) \<and> hasNode g a} else {}
                   | _ \<Rightarrow> {})) \<subseteq> set ys"
proof -
  let ?body = "\<lambda>nodeId g'.
        case getNode g' nodeId of
          None \<Rightarrow> Some (Inl NullThrows)
        | Some n \<Rightarrow>
            (case node_value n of
               EnvValue key val \<Rightarrow>
                 if cur key \<noteq> Some val
                 then invalidateNodes (getNodesConnectedTo g' n invalidated_by_update) g'
                 else Some (Inr g')
             | _ \<Rightarrow> Some (Inl InvariantFailed))"
  let ?M = "\<lambda>i. case nodes g i of
                None \<Rightarrow> {}
              | Some n \<Rightarrow>
                  (case node_value n of
                     EnvValue key val \<Rightarrow>
                       if cur key \<noteq> Some val
                       then {a. (a, i, invalidated_by_update) \<in> set (edges g) \<and> hasNode g a} else {}
                   | _ \<Rightarrow> {})"
  have each: "\<exists>ys. ?body i (g\<lparr>invalidNodeIds := zs\<rparr>) = Some (Inr (g\<lparr>invalidNodeIds := ys\<rparr>)) \<and>
           set zs \<subseteq> set ys \<and> ?M i \<subseteq> set ys \<and> set ys \<subseteq> set zs \<union> dom (nodes g)"
    if "i \<in> set (envNodeIds g)" for i zs
  proof -
    have "case nodes g i of None \<Rightarrow> False | Some n \<Rightarrow> node_type n = env_t"
      using ei that unfolding env_index_def by blast
    then obtain n where n: "nodes g i = Some n" "node_type n = env_t"
      by (cases "nodes g i") auto
    then obtain key val where kv: "node_value n = EnvValue key val" using node_type_env by blast
    have nid: "node_id n = i" using n k by (auto simp: keyed_by_id_def)
    show ?thesis
    proof (cases "cur key \<noteq> Some val")
      case True
      then show ?thesis
        using invalidate_connected[OF k ac rs, of invalidated_by_update zs n] n kv nid
        by (auto simp: getNode_def)
    next
      case False
      then show ?thesis using n kv by (auto simp: getNode_def intro: exI[of _ zs])
    qed
  qed
  obtain ys where ys: "for_each ?body (envNodeIds g) (g\<lparr>invalidNodeIds := invalidNodeIds g\<rparr>) =
       Some (Inr (g\<lparr>invalidNodeIds := ys\<rparr>))"
     "set (invalidNodeIds g) \<subseteq> set ys" "(\<Union>i \<in> set (envNodeIds g). ?M i) \<subseteq> set ys"
    using for_each_invalid[of "envNodeIds g" ?body g ?M "invalidNodeIds g"] each by blast
  then show ?thesis by (intro exI[of _ ys]) (simp add: invalidateEnvNodes_def)
qed

lemma started: "startRequest empty_tracker P_request = Inr (empty_tracker\<lparr>graph := started_graph\<rparr>)"
  by (simp add: started_graph_def P_request_def P_node_def run_defs)

lemma fold_addEdge:
  "\<exists>es. fold (\<lambda>toNode g'. addEdge g' a (node_id toNode) k) ns g = g\<lparr>edges := es\<rparr> \<and>
        set es = set (edges g) \<union> {(a, node_id x, k) |x. x \<in> set ns}"
proof (induction ns arbitrary: g)
  case Nil
  show ?case by (auto intro: exI[of _ "edges g"])
next
  case (Cons x ns)
  obtain es where es: "fold (\<lambda>toNode g'. addEdge g' a (node_id toNode) k) ns (addEdge g a (node_id x) k) =
      (addEdge g a (node_id x) k)\<lparr>edges := es\<rparr>"
    "set es = set (edges (addEdge g a (node_id x) k)) \<union> {(a, node_id x, k) |x. x \<in> set ns}"
    using Cons.IH[of "addEdge g a (node_id x) k"] by blast
  show ?case
    using es by (intro exI[of _ es]) (auto simp: addEdge_def)
qed

lemma replaceNodesConnectedTo_edges:
  "\<exists>es. replaceNodesConnectedTo g n ns k = g\<lparr>edges := es\<rparr> \<and>
        set es = {(a, b, k') \<in> set (edges g). \<not> (a = node_id n \<and> k' = k \<and> b \<notin> node_id ` set ns)}
                 \<union> {(node_id n, node_id x, k) |x. x \<in> set ns}"
proof -
  let ?g0 = "g\<lparr>edges := filter (\<lambda>(a, b, k').
              \<not> (a = node_id n \<and> k' = k \<and> b \<notin> node_id ` set ns)) (edges g)\<rparr>"
  obtain es where es: "fold (\<lambda>toNode g'. addEdge g' (node_id n) (node_id toNode) k) ns ?g0 = ?g0\<lparr>edges := es\<rparr>"
    "set es = set (edges ?g0) \<union> {(node_id n, node_id x, k) |x. x \<in> set ns}"
    using fold_addEdge[of "node_id n" k ns ?g0] by blast
  show ?thesis
    using es by (intro exI[of _ es]) (auto simp: replaceNodesConnectedTo_def)
qed

lemma invalid_replace [simp]:
  "invalidNodeIds (replaceNodesConnectedTo g n ns k) = invalidNodeIds g"
  using replaceNodesConnectedTo_edges[of g n ns k] by auto

lemma incomplete_replace [simp]:
  "incompleteNodeIds (replaceNodesConnectedTo g n ns k) = incompleteNodeIds g"
  using replaceNodesConnectedTo_edges[of g n ns k] by auto

lemma nodes_replace [simp]:
  "nodes (replaceNodesConnectedTo g n ns k) = nodes g"
  using replaceNodesConnectedTo_edges[of g n ns k] by auto

lemma invalid_clear [simp]: "invalidNodeIds (clearInvalidations g n) = invalidNodeIds g"
  by (simp add: clearInvalidations_def Let_def)

lemma incomplete_clear [simp]: "incompleteNodeIds (clearInvalidations g n) = incompleteNodeIds g"
  by (simp add: clearInvalidations_def Let_def)

lemma invalid_addNode [simp]: "invalidNodeIds (RequestGraph_addNode g n) = invalidNodeIds g"
  by (simp add: RequestGraph_addNode_def Graph_addNode_def Let_def)

lemma incomplete_addNode [simp]: "incompleteNodeIds (RequestGraph_addNode g n) = incompleteNodeIds g"
  by (simp add: RequestGraph_addNode_def Graph_addNode_def Let_def)

lemma startRequest_sets:
  assumes "startRequest t r = Inr t'"
  shows "set (invalidNodeIds (graph t')) = set (invalidNodeIds (graph t)) - {sr_id r}"
    "set (incompleteNodeIds (graph t')) = insert (sr_id r) (set (incompleteNodeIds (graph t)))"
  using assms by (auto simp: startRequest_def split: if_splits sum.splits)

lemma apply_op_disjoint: "sets_disjoint t \<Longrightarrow> sets_disjoint (apply_op op t)"
proof (cases op)
  case (StartRequest r)
  assume d: "sets_disjoint t"
  show ?thesis
  proof (cases "startRequest t r")
    case (Inl e)
    then show ?thesis using d StartRequest by simp
  next
    case (Inr t')
    from startRequest_sets[OF Inr] d show ?thesis
      using StartRequest Inr by (auto simp: sets_disjoint_def)
  qed
next
  case (CompleteRequest i)
  assume "sets_disjoint t"
  then show ?thesis using CompleteRequest
    by (auto simp: sets_disjoint_def RequestTracker_completeRequest_def)
next
  case (RejectRequest i)
  assume "sets_disjoint t"
  then show ?thesis using RejectRequest
    by (auto simp: sets_disjoint_def rejectRequest_def Let_def)
next
  case (StoreResultOf i v)
  assume "sets_disjoint t"
  then show ?thesis using StoreResultOf
    by (auto simp: sets_disjoint_def storeResult_def split: option.splits node_value.splits)
qed

lemma chain_run:
  "runRequest chain_request sample_paths empty_tracker =
     (Inr (Num 1), empty_tracker\<lparr>graph := chain_graph\<rparr>)"
  by (simp add: chain_request_def chain_invalidation_def chain_graph_def P_node_def
      graph_reply_def invalidateOnFileCreate_def ensureNode_def ensureEdge_def hasEdge_def
      nodeFromFileName_def nodeFromFilePath_def nullthrows_all.simps run_defs fun_upd_twist)


lemma invalidateNodes_Nil: "invalidateNodes [] g = Some (Inr g)"
  by (simp add: invalidateNodes_def walk_Nil)

lemma chain_create:
  "respondToFSEvents sample_paths [\<lparr>ev_path = ''/a/config/app.json'', ev_type = create\<rparr>] chain_graph =
     Some (Inr (False, chain_graph))"
  by (simp add: respondToFSEvents_def respondToFSEvent_def fileName_step sample_paths_def
      chain_graph_def empty_graph_def getNode_def extensionlessFileNodeId_def slice_to_neg_def
      nodeFromFileName_def nodeFromFilePath_def node_type_def getNodesConnectedTo_def
      List.map_filter_def hasEdge_def invalidateNodes_Nil Let_def)

section \<open>Runs keep the graph in shape\<close>

lemma executeRequest_rel:
  fixes Rel :: "RequestTracker \<Rightarrow> RequestTracker \<Rightarrow> bool"
  assumes refl: "\<And>t. Rel t t"
    and trans: "\<And>t1 t2 t3. Rel t1 t2 \<Longrightarrow> Rel t2 t3 \<Longrightarrow> Rel t1 t3"
    and start: "\<And>t r t'. sr_id r = i \<Longrightarrow> startRequest t r = Inr t' \<Longrightarrow> Rel t t'"
    and complete: "\<And>t. Rel t (RequestTracker_completeRequest t i)"
    and reject: "\<And>t. Rel t (rejectRequest t i)"
    and replace: "\<And>t ns g. replaceSubrequests (graph t) i ns = Inr g \<Longrightarrow> Rel t (t\<lparr>graph := g\<rparr>)"
    and run: "\<And>subs t. Rel t (snd (snd (run i subs t)))"
  shows "Rel t (snd (executeRequest run i ty inp t))"
proof -
  let ?sr = "\<lparr>sr_id = i, sr_type = ty, sr_input = inp, sr_result = None\<rparr>"
  define tri where "tri =
            (case startRequest t ?sr of
               Inl e \<Rightarrow> (Inl e, [], t)
             | Inr t0 \<Rightarrow>
                 (case run i [] t0 of
                    (Inl e, subs, tb) \<Rightarrow> (Inl e, subs, tb)
                  | (Inr v, subs, tb) \<Rightarrow>
                      (case assertSignalNotAborted (signal tb) of
                         Inl e \<Rightarrow> (Inl e, subs, tb)
                       | Inr u \<Rightarrow> (Inr v, subs, RequestTracker_completeRequest tb i))))"
  obtain outcome subs t1 where tri': "tri = (outcome, subs, t1)" by (cases tri) auto
  have r1: "Rel t t1"
  proof (cases "startRequest t ?sr")
    case (Inl e)
    then show ?thesis using tri' refl by (simp add: tri_def)
  next
    case (Inr t0)
    have a: "Rel t t0" using start[OF _ Inr] by simp
    obtain o' s' tb where rb: "run i [] t0 = (o', s', tb)" by (cases "run i [] t0") auto
    have b: "Rel t0 tb" using run[of t0 "[]"] rb by simp
    have "t1 = tb \<or> t1 = RequestTracker_completeRequest tb i"
      using tri' Inr rb by (auto simp: tri_def split: sum.splits)
    then have "Rel tb t1" using refl complete by auto
    with a b show ?thesis using trans by blast
  qed
  define t2 where "t2 = (case outcome of Inl e \<Rightarrow> rejectRequest t1 i | Inr v \<Rightarrow> t1)"
  have r2: "Rel t1 t2" using refl reject by (cases outcome) (simp_all add: t2_def)
  have ex: "executeRequest run i ty inp t =
      (case nullthrows_all (graph t2) subs of
           Inl e \<Rightarrow> (Inl e, t2)
         | Inr subrequestNodes \<Rightarrow>
             (case replaceSubrequests (graph t2) i subrequestNodes of
                Inl e \<Rightarrow> (Inl e, t2)
              | Inr g \<Rightarrow> (outcome, t2\<lparr>graph := g\<rparr>)))"
    using tri' unfolding executeRequest_def tri_def[symmetric] t2_def by (simp add: Let_def)
  have "Rel t2 (snd (executeRequest run i ty inp t))"
    unfolding ex using refl replace by (auto split: sum.splits)
  with r1 r2 show ?thesis using trans by blast
qed

lemma run_rel:
  fixes Rel :: "RequestTracker \<Rightarrow> RequestTracker \<Rightarrow> bool" and A :: "string set"
  assumes refl: "\<And>t. Rel t t"
    and trans: "\<And>t1 t2 t3. Rel t1 t2 \<Longrightarrow> Rel t2 t3 \<Longrightarrow> Rel t1 t3"
    and api: "\<And>c i subs t. \<not> is_run c \<Longrightarrow> Rel t (snd (snd (run_call c ext i subs t)))"
    and start: "\<And>t r t'. sr_id r \<in> A \<Longrightarrow> startRequest t r = Inr t' \<Longrightarrow> Rel t t'"
    and complete: "\<And>t i. i \<in> A \<Longrightarrow> Rel t (RequestTracker_completeRequest t i)"
    and reject: "\<And>t i. i \<in> A \<Longrightarrow> Rel t (rejectRequest t i)"
    and replace: "\<And>t i ns g. i \<in> A \<Longrightarrow> replaceSubrequests (graph t) i ns = Inr g \<Longrightarrow> Rel t (t\<lparr>graph := g\<rparr>)"
  shows "call_started c \<subseteq> A \<longrightarrow> (\<forall>i subs t. Rel t (snd (snd (run_call c ext i subs t))))"
    and "request_started r \<subseteq> A \<longrightarrow> (\<forall>t. Rel t (snd (runRequest r ext t)))"
    and "body_started b \<subseteq> A \<longrightarrow> (\<forall>i subs t. Rel t (snd (snd (run_body b ext i subs t))))"
proof (induction c and r and b)
  case (RunRequest x)
  show ?case
  proof (intro impI allI)
    fix i subs t
    assume "call_started (RunRequest x) \<subseteq> A"
    then have "Rel t (snd (runRequest x ext t))" using RunRequest by simp
    then show "Rel t (snd (snd (run_call (RunRequest x) ext i subs t)))"
      by (auto split: prod.splits sum.splits)
  qed
next
  case (Request i ty inp run)
  show ?case
  proof (intro impI allI)
    fix t
    assume sub: "request_started (Request i ty inp run) \<subseteq> A"
    then have iA: "i \<in> A" and bA: "body_started run \<subseteq> A" by auto
    show "Rel t (snd (runRequest (Request i ty inp run) ext t))"
    proof (cases "hasValidResult t i")
      case True
      then show ?thesis using refl by simp
    next
      case False
      have "Rel t (snd (executeRequest (run_body run ext) i ty inp t))"
        by (rule executeRequest_rel[where Rel = Rel])
           (use refl trans start complete reject replace iA Request bA in \<open>auto\<close>)
      then show ?thesis using False by simp
    qed
  qed
next
  case (Call c k)
  show ?case
  proof (intro impI allI)
    fix i subs t
    assume sub: "body_started (Call c k) \<subseteq> A"
    then have cA: "call_started c \<subseteq> A" and kA: "\<And>rep. body_started (k rep) \<subseteq> A" by auto
    obtain rep subs' t' where rc: "run_call c ext i subs t = (rep, subs', t')"
      by (cases "run_call c ext i subs t") auto
    have a: "Rel t t'" using Call(1) cA rc by (metis snd_conv)
    have "Rel t' (snd (snd (run_body (k rep) ext i subs' t')))"
      using Call(2)[of "k rep"] kA by auto
    with a show "Rel t (snd (snd (run_body (Call c k) ext i subs t)))"
      using rc trans by simp
  qed
qed (use api refl in \<open>simp_all add: is_run_def del: run_call.simps\<close>)

lemma kept_refl [simp]: "kept g g"
  by (simp add: kept_def)

lemma kept_trans: "kept g1 g2 \<Longrightarrow> kept g2 g3 \<Longrightarrow> kept g1 g3"
  unfolding kept_def by (metis (no_types, lifting))

lemma kept_same_nodes: "nodes g' = nodes g \<Longrightarrow> kept g g'"
  by (simp add: kept_def)

lemma kept_ensureNode [simp]: "kept g (ensureNode g n)"
  by (auto simp: kept_def nodes_ensureNode hasNode_def)

lemma kept_ensureEdge [simp]: "kept g (ensureEdge g a b k)"
  by (simp add: kept_same_nodes)

lemma nodes_addEdge [simp]: "nodes (addEdge g a b k) = nodes g"
  by (simp add: addEdge_def)

lemma kept_addFileNameParts: "kept g (snd (addFileNameParts parts lastNode g))"
proof (induction parts arbitrary: lastNode g)
  case Nil
  show ?case by simp
next
  case (Cons part parts)
  let ?n = "nodeFromFileName part"
  let ?g2 = "(case lastNode of None \<Rightarrow> ensureNode g ?n
                | Some l \<Rightarrow> ensureEdge (ensureNode g ?n) (node_id l) (node_id ?n) dirname)"
  have "kept g ?g2"
    by (cases lastNode) (auto intro: kept_trans[OF kept_ensureNode kept_ensureEdge])
  moreover have "kept ?g2 (snd (addFileNameParts parts (Some ?n) ?g2))" by (rule Cons.IH)
  ultimately show ?case by (simp add: Let_def kept_trans)
qed

lemma kept_invalidateOnFileCreate:
  assumes "invalidateOnFileCreate g i inp = Inr g'"
  shows "kept g g'"
proof -
  obtain rn where rn: "getRequestNode g i = Inr rn"
    using assms by (auto simp: invalidateOnFileCreate_def split: sum.splits)
  show ?thesis
  proof (cases "glob inp")
    case (Some gl)
    then have "g' = ensureEdge (ensureNode g (nodeFromGlob gl)) (node_id rn) (node_id (nodeFromGlob gl)) invalidated_by_create"
      using assms rn by (simp add: invalidateOnFileCreate_def)
    then show ?thesis by (auto intro: kept_trans[OF kept_ensureNode kept_ensureEdge])
  next
    case None
    note noglob = None
    show ?thesis
    proof (cases "extensions inp")
      case (Some exts)
      let ?n = "nodeFromExtensionlessFilePath (filePath inp) exts"
      show ?thesis
      proof (cases "getNode g (node_id ?n)")
        case None
        then have "g' = ensureEdge (ensureNode g ?n) (node_id rn) (node_id ?n) invalidated_by_create"
          using assms rn noglob Some by (simp add: invalidateOnFileCreate_def Let_def)
        then show ?thesis by (auto intro: kept_trans[OF kept_ensureNode kept_ensureEdge])
      next
        case found: (Some n')
        then obtain p old where v: "node_value n' = ExtensionlessFileValue p old"
          using assms rn noglob Some
          by (auto simp: invalidateOnFileCreate_def Let_def split: node_value.splits)
        let ?n'' = "n'\<lparr>node_value := ExtensionlessFileValue p (new_Set (old @ exts))\<rparr>"
        let ?g1 = "g\<lparr>nodes := (nodes g)(node_id ?n \<mapsto> ?n'')\<rparr>"
        have g': "g' = ensureEdge (ensureNode ?g1 ?n'') (node_id rn) (node_id ?n'') invalidated_by_create"
          using assms rn noglob Some found v by (simp add: invalidateOnFileCreate_def Let_def)
        have "kept g ?g1"
          using found v by (auto simp: kept_def getNode_def node_type_def)
        moreover have "kept ?g1 g'"
          unfolding g' by (auto intro: kept_trans[OF kept_ensureNode kept_ensureEdge])
        ultimately show ?thesis by (rule kept_trans)
      qed
    next
      case None
      then obtain fname aboveP where fa: "fileName inp = Some fname" "aboveFilePath inp = Some aboveP"
        using assms rn noglob
        by (auto simp: invalidateOnFileCreate_def Let_def split: option.splits)
      obtain lastNode g1 where parts: "addFileNameParts (rev (split CHR ''/'' fname)) None g = (lastNode, g1)"
        by (cases "addFileNameParts (rev (split CHR ''/'' fname)) None g") auto
      let ?n = "nodeFromFilePath aboveP"
      let ?g2 = "ensureNode g1 ?n"
      let ?g3 = "(case lastNode of
                    None \<Rightarrow> ?g2
                  | Some ln \<Rightarrow>
                      if \<not> hasEdge ?g2 (node_id ln) (node_id ?n) invalidated_by_create_above
                      then addEdge ?g2 (node_id ?n) (node_id ln) invalidated_by_create_above
                      else ?g2)"
      have g': "g' = ensureEdge (ensureNode ?g3 ?n) (node_id rn) (node_id ?n) invalidated_by_create"
        using assms rn noglob None fa parts by (simp add: invalidateOnFileCreate_def Let_def)
      have "kept g g1" using kept_addFileNameParts[of g "rev (split CHR ''/'' fname)" None] parts by simp
      moreover have "kept g1 ?g2" by simp
      moreover have "kept ?g2 ?g3" by (cases lastNode) (auto intro: kept_same_nodes)
      moreover have "kept ?g3 g'"
        unfolding g' by (auto intro: kept_trans[OF kept_ensureNode kept_ensureEdge])
      ultimately show ?thesis by (blast intro: kept_trans)
    qed
  qed
qed

lemma graph_reply_kept:
  assumes "\<And>g. r = Inr g \<Longrightarrow> kept (graph t) g"
  shows "nodes_kept t (snd (graph_reply t r))"
  using assms by (cases r) (simp_all add: graph_reply_def nodes_kept_def)

lemma api_nodes_kept:
  assumes "\<not> is_run c"
  shows "nodes_kept t (snd (snd (run_call c ext i subs t)))"
proof (cases c)
  case (InvalidateOnFileCreate inp)
  have "nodes_kept t (snd (graph_reply t (invalidateOnFileCreate (graph t) i inp)))"
    by (rule graph_reply_kept) (rule kept_invalidateOnFileCreate)
  then show ?thesis using InvalidateOnFileCreate by (auto split: prod.splits)
next
  case (InvalidateOnFileDelete fp)
  have "nodes_kept t (snd (graph_reply t (invalidateOnFileDelete (graph t) i fp)))"
    by (rule graph_reply_kept)
       (auto simp: invalidateOnFileDelete_def Let_def split: sum.splits
             intro: kept_trans[OF kept_ensureNode kept_ensureEdge])
  then show ?thesis using InvalidateOnFileDelete by (auto split: prod.splits)
next
  case (InvalidateOnFileUpdate fp)
  have "nodes_kept t (snd (graph_reply t (invalidateOnFileUpdate (graph t) i fp)))"
    by (rule graph_reply_kept)
       (auto simp: invalidateOnFileUpdate_def Let_def split: sum.splits
             intro: kept_trans[OF kept_ensureNode kept_ensureEdge])
  then show ?thesis using InvalidateOnFileUpdate by (auto split: prod.splits)
next
  case InvalidateOnStartup
  have "nodes_kept t (snd (graph_reply t (invalidateOnStartup (graph t) i)))"
    by (rule graph_reply_kept)
       (auto simp: invalidateOnStartup_def split: sum.splits intro: kept_same_nodes)
  then show ?thesis using InvalidateOnStartup by (auto split: prod.splits)
next
  case (InvalidateOnEnvChange e)
  have "nodes_kept t (snd (graph_reply t (api_invalidateOnEnvChange t i e)))"
    by (rule graph_reply_kept)
       (auto simp: api_invalidateOnEnvChange_def invalidateOnEnvChange_def Let_def split: sum.splits
             intro: kept_trans[OF kept_ensureNode kept_ensureEdge])
  then show ?thesis using InvalidateOnEnvChange by (auto split: prod.splits)
next
  case (InvalidateOnOptionChange opt)
  have "nodes_kept t (snd (graph_reply t (api_invalidateOnOptionChange ext t i opt)))"
    by (rule graph_reply_kept)
       (auto simp: api_invalidateOnOptionChange_def invalidateOnOptionChange_def Let_def split: sum.splits
             intro: kept_trans[OF kept_ensureNode kept_ensureEdge])
  then show ?thesis using InvalidateOnOptionChange by (auto split: prod.splits)
next
  case GetInvalidations
  then show ?thesis by (simp add: nodes_kept_def split: sum.splits)
next
  case (StoreResult res)
  then show ?thesis
    by (auto simp: nodes_kept_def kept_def storeResult_def getNode_def node_type_def
             split: option.splits node_value.splits)
next
  case (RunRequest r)
  then show ?thesis using assms by (simp add: is_run_def)
qed

lemma nodes_clearInvalidations [simp]: "nodes (clearInvalidations g n) = nodes g"
  by (simp add: clearInvalidations_def Let_def)

lemma nodes_RequestGraph_addNode:
  "nodes (RequestGraph_addNode g n) = (if hasNode g (node_id n) then nodes g else (nodes g)(node_id n \<mapsto> n))"
  by (auto simp: RequestGraph_addNode_def Graph_addNode_def hasNode_def Let_def)

lemma startRequest_nodes:
  assumes "startRequest t r = Inr t'"
  shows "nodes (graph t') = (if hasNode (graph t) (sr_id r) then nodes (graph t)
                             else (nodes (graph t))(sr_id r \<mapsto> nodeFromRequest r))"
  using assms
  by (auto simp: startRequest_def nodes_RequestGraph_addNode nodeFromRequest_def
           split: if_splits sum.splits)

lemma start_nodes_kept: "startRequest t r = Inr t' \<Longrightarrow> nodes_kept t t'"
  by (auto simp: nodes_kept_def kept_def startRequest_nodes hasNode_def)

lemma complete_nodes_kept: "nodes_kept t (RequestTracker_completeRequest t i)"
  by (simp add: nodes_kept_def kept_def RequestTracker_completeRequest_def)

lemma reject_nodes_kept: "nodes_kept t (rejectRequest t i)"
  by (simp add: nodes_kept_def kept_def rejectRequest_def Let_def)

lemma replaceSubrequests_nodes:
  "replaceSubrequests g i ns = Inr g' \<Longrightarrow> nodes g' = nodes g"
  by (auto simp: replaceSubrequests_def getRequestNode_def hasNode_def getNode_def
           split: sum.splits option.splits if_splits)

lemma replace_nodes_kept:
  "replaceSubrequests (graph t) i ns = Inr g \<Longrightarrow> nodes_kept t (t\<lparr>graph := g\<rparr>)"
  by (simp add: nodes_kept_def kept_same_nodes replaceSubrequests_nodes)

lemma nodes_kept_trans: "nodes_kept t1 t2 \<Longrightarrow> nodes_kept t2 t3 \<Longrightarrow> nodes_kept t1 t3"
  unfolding nodes_kept_def by (rule kept_trans)

lemma run_nodes_kept:
  "nodes_kept t (snd (snd (run_call c ext i subs t)))"
  "nodes_kept t (snd (runRequest r ext t))"
  "nodes_kept t (snd (snd (run_body b ext i subs t)))"
proof -
  note rl = run_rel[where Rel = nodes_kept and A = UNIV and ext = ext,
      OF _ nodes_kept_trans api_nodes_kept start_nodes_kept complete_nodes_kept
         reject_nodes_kept replace_nodes_kept]
  have refl: "\<And>t. nodes_kept t t" by (simp add: nodes_kept_def)
  show "nodes_kept t (snd (snd (run_call c ext i subs t)))"
    using rl(1)[where c = c] refl by simp
  show "nodes_kept t (snd (runRequest r ext t))"
    using rl(2)[where r = r] refl by simp
  show "nodes_kept t (snd (snd (run_body b ext i subs t)))"
    using rl(3)[where b = b] refl by simp
qed

lemma keyed_same_nodes: "nodes g' = nodes g \<Longrightarrow> keyed_by_id g \<Longrightarrow> keyed_by_id g'"
  by (simp add: keyed_by_id_def)

lemma keyed_ensure: "keyed_by_id g \<Longrightarrow> keyed_by_id (ensureEdge (ensureNode g n) a b k)"
  by (simp add: keyed_ensureNode)

lemma keyed_addFileNameParts:
  "keyed_by_id g \<Longrightarrow> keyed_by_id (snd (addFileNameParts parts lastNode g))"
proof (induction parts arbitrary: lastNode g)
  case Nil
  then show ?case by simp
next
  case (Cons part parts)
  let ?n = "nodeFromFileName part"
  let ?g2 = "(case lastNode of None \<Rightarrow> ensureNode g ?n
                | Some l \<Rightarrow> ensureEdge (ensureNode g ?n) (node_id l) (node_id ?n) dirname)"
  have "keyed_by_id ?g2"
    using Cons.prems by (cases lastNode) (simp_all add: keyed_ensureNode)
  then have "keyed_by_id (snd (addFileNameParts parts (Some ?n) ?g2))" by (rule Cons.IH)
  then show ?case by (simp add: Let_def)
qed

lemma keyed_invalidateOnFileCreate:
  assumes "invalidateOnFileCreate g i inp = Inr g'" "keyed_by_id g"
  shows "keyed_by_id g'"
proof -
  obtain rn where rn: "getRequestNode g i = Inr rn"
    using assms by (auto simp: invalidateOnFileCreate_def split: sum.splits)
  show ?thesis
  proof (cases "glob inp")
    case (Some gl)
    then have "g' = ensureEdge (ensureNode g (nodeFromGlob gl)) (node_id rn) (node_id (nodeFromGlob gl)) invalidated_by_create"
      using assms rn by (simp add: invalidateOnFileCreate_def)
    then show ?thesis using assms(2) by (simp add: keyed_ensureNode)
  next
    case None
    note noglob = None
    show ?thesis
    proof (cases "extensions inp")
      case (Some exts)
      let ?n = "nodeFromExtensionlessFilePath (filePath inp) exts"
      show ?thesis
      proof (cases "getNode g (node_id ?n)")
        case None
        then have "g' = ensureEdge (ensureNode g ?n) (node_id rn) (node_id ?n) invalidated_by_create"
          using assms rn noglob Some by (simp add: invalidateOnFileCreate_def Let_def)
        then show ?thesis using assms(2) by (simp add: keyed_ensureNode)
      next
        case found: (Some n')
        then obtain p old where v: "node_value n' = ExtensionlessFileValue p old"
          using assms rn noglob Some
          by (auto simp: invalidateOnFileCreate_def Let_def split: node_value.splits)
        let ?n'' = "n'\<lparr>node_value := ExtensionlessFileValue p (new_Set (old @ exts))\<rparr>"
        let ?g1 = "g\<lparr>nodes := (nodes g)(node_id ?n \<mapsto> ?n'')\<rparr>"
        have g': "g' = ensureEdge (ensureNode ?g1 ?n'') (node_id rn) (node_id ?n'') invalidated_by_create"
          using assms rn noglob Some found v by (simp add: invalidateOnFileCreate_def Let_def)
        have "keyed_by_id ?g1"
          using found assms(2) by (auto simp: keyed_by_id_def getNode_def)
        then show ?thesis unfolding g' by (simp add: keyed_ensureNode)
      qed
    next
      case None
      then obtain fname aboveP where fa: "fileName inp = Some fname" "aboveFilePath inp = Some aboveP"
        using assms rn noglob
        by (auto simp: invalidateOnFileCreate_def Let_def split: option.splits)
      obtain lastNode g1 where parts: "addFileNameParts (rev (split CHR ''/'' fname)) None g = (lastNode, g1)"
        by (cases "addFileNameParts (rev (split CHR ''/'' fname)) None g") auto
      let ?n = "nodeFromFilePath aboveP"
      let ?g2 = "ensureNode g1 ?n"
      let ?g3 = "(case lastNode of
                    None \<Rightarrow> ?g2
                  | Some ln \<Rightarrow>
                      if \<not> hasEdge ?g2 (node_id ln) (node_id ?n) invalidated_by_create_above
                      then addEdge ?g2 (node_id ?n) (node_id ln) invalidated_by_create_above
                      else ?g2)"
      have g': "g' = ensureEdge (ensureNode ?g3 ?n) (node_id rn) (node_id ?n) invalidated_by_create"
        using assms rn noglob None fa parts by (simp add: invalidateOnFileCreate_def Let_def)
      have "keyed_by_id g1"
        using keyed_addFileNameParts[OF assms(2), of "rev (split CHR ''/'' fname)" None] parts by simp
      then have "keyed_by_id ?g2" by (rule keyed_ensureNode)
      then have "keyed_by_id ?g3"
        by (cases lastNode) (auto intro: keyed_same_nodes)
      then show ?thesis unfolding g' by (simp add: keyed_ensureNode)
    qed
  qed
qed

lemma graph_reply_keyed:
  assumes "\<And>g. r = Inr g \<Longrightarrow> keyed_by_id (graph t) \<Longrightarrow> keyed_by_id g"
  shows "keeps_keyed t (snd (graph_reply t r))"
  using assms by (cases r) (simp_all add: graph_reply_def keeps_keyed_def)

lemma api_keeps_keyed:
  assumes "\<not> is_run c"
  shows "keeps_keyed t (snd (snd (run_call c ext i subs t)))"
proof (cases c)
  case (InvalidateOnFileCreate inp)
  have "keeps_keyed t (snd (graph_reply t (invalidateOnFileCreate (graph t) i inp)))"
    by (rule graph_reply_keyed) (rule keyed_invalidateOnFileCreate)
  then show ?thesis using InvalidateOnFileCreate by (auto split: prod.splits)
next
  case (InvalidateOnFileDelete fp)
  have "keeps_keyed t (snd (graph_reply t (invalidateOnFileDelete (graph t) i fp)))"
    by (rule graph_reply_keyed)
       (auto simp: invalidateOnFileDelete_def Let_def keyed_ensureNode split: sum.splits)
  then show ?thesis using InvalidateOnFileDelete by (auto split: prod.splits)
next
  case (InvalidateOnFileUpdate fp)
  have "keeps_keyed t (snd (graph_reply t (invalidateOnFileUpdate (graph t) i fp)))"
    by (rule graph_reply_keyed)
       (auto simp: invalidateOnFileUpdate_def Let_def keyed_ensureNode split: sum.splits)
  then show ?thesis using InvalidateOnFileUpdate by (auto split: prod.splits)
next
  case InvalidateOnStartup
  have "keeps_keyed t (snd (graph_reply t (invalidateOnStartup (graph t) i)))"
    by (rule graph_reply_keyed)
       (auto simp: invalidateOnStartup_def keyed_by_id_def split: sum.splits)
  then show ?thesis using InvalidateOnStartup by (auto split: prod.splits)
next
  case (InvalidateOnEnvChange e)
  have "keeps_keyed t (snd (graph_reply t (api_invalidateOnEnvChange t i e)))"
    by (rule graph_reply_keyed)
       (auto simp: api_invalidateOnEnvChange_def invalidateOnEnvChange_def Let_def keyed_ensureNode
             split: sum.splits)
  then show ?thesis using InvalidateOnEnvChange by (auto split: prod.splits)
next
  case (InvalidateOnOptionChange opt)
  have "keeps_keyed t (snd (graph_reply t (api_invalidateOnOptionChange ext t i opt)))"
    by (rule graph_reply_keyed)
       (auto simp: api_invalidateOnOptionChange_def invalidateOnOptionChange_def Let_def keyed_ensureNode
             split: sum.splits)
  then show ?thesis using InvalidateOnOptionChange by (auto split: prod.splits)
next
  case GetInvalidations
  then show ?thesis by (simp add: keeps_keyed_def split: sum.splits)
next
  case (StoreResult res)
  then show ?thesis
    by (auto simp: keeps_keyed_def keyed_by_id_def storeResult_def getNode_def
             split: option.splits node_value.splits if_splits)
next
  case (RunRequest r)
  then show ?thesis using assms by (simp add: is_run_def)
qed

lemma start_keeps_keyed: "startRequest t r = Inr t' \<Longrightarrow> keeps_keyed t t'"
  by (auto simp: keeps_keyed_def keyed_by_id_def startRequest_nodes nodeFromRequest_def
           split: if_splits)

lemma complete_keeps_keyed: "keeps_keyed t (RequestTracker_completeRequest t i)"
  by (simp add: keeps_keyed_def keyed_by_id_def RequestTracker_completeRequest_def)

lemma reject_keeps_keyed: "keeps_keyed t (rejectRequest t i)"
  by (simp add: keeps_keyed_def keyed_by_id_def rejectRequest_def Let_def)

lemma replace_keeps_keyed:
  "replaceSubrequests (graph t) i ns = Inr g \<Longrightarrow> keeps_keyed t (t\<lparr>graph := g\<rparr>)"
  by (auto simp: keeps_keyed_def replaceSubrequests_nodes intro: keyed_same_nodes)

lemma run_keeps_keyed:
  "keeps_keyed t (snd (snd (run_call c ext i subs t)))"
  "keeps_keyed t (snd (runRequest r ext t))"
  "keeps_keyed t (snd (snd (run_body b ext i subs t)))"
proof -
  have trans: "\<And>t1 t2 t3. keeps_keyed t1 t2 \<Longrightarrow> keeps_keyed t2 t3 \<Longrightarrow> keeps_keyed t1 t3"
    by (simp add: keeps_keyed_def)
  note rl = run_rel[where Rel = keeps_keyed and A = UNIV and ext = ext,
      OF _ trans api_keeps_keyed start_keeps_keyed complete_keeps_keyed
         reject_keeps_keyed replace_keeps_keyed]
  have refl: "\<And>t. keeps_keyed t t" by (simp add: keeps_keyed_def)
  show "keeps_keyed t (snd (snd (run_call c ext i subs t)))"
    using rl(1)[where c = c] refl by simp
  show "keeps_keyed t (snd (runRequest r ext t))"
    using rl(2)[where r = r] refl by simp
  show "keeps_keyed t (snd (snd (run_body b ext i subs t)))"
    using rl(3)[where b = b] refl by simp
qed

lemma executeRequest_stages:
  "executeRequest run i ty inp t =
     (case startRequest t (stored i ty inp) of
        Inl e \<Rightarrow> finish i (Inl e, [], rejectRequest t i)
      | Inr t0 \<Rightarrow> finish i (settle i (run i [] t0)))"
  by (auto simp: executeRequest_def finish_def settle_def stored_def Let_def
           split: sum.splits prod.splits)

lemma nullthrows_all_Inr:
  assumes "\<forall>s \<in> set subs. hasNode g s"
  shows "\<exists>ns. nullthrows_all g subs = Inr ns \<and> length ns = length subs \<and>
              (\<forall>k < length subs. nodes g (subs ! k) = Some (ns ! k))"
  using assms
proof (induction subs)
  case Nil
  show ?case by simp
next
  case (Cons s subs)
  then obtain ns where ns: "nullthrows_all g subs = Inr ns" "length ns = length subs"
    "\<forall>k < length subs. nodes g (subs ! k) = Some (ns ! k)" by auto
  obtain n where n: "nodes g s = Some n" using Cons.prems by (auto simp: hasNode_def)
  have "nullthrows_all g (s # subs) = Inr (n # ns)" using ns n by (simp add: getNode_def)
  moreover have "\<forall>k < length (s # subs). nodes g ((s # subs) ! k) = Some ((n # ns) ! k)"
    using ns n by (auto simp: nth_Cons split: nat.splits)
  ultimately show ?case using ns(2) by auto
qed

lemma nullthrows_all_ids:
  assumes "keyed_by_id g" "nullthrows_all g subs = Inr ns"
  shows "map node_id ns = subs"
  using assms(2)
proof (induction subs arbitrary: ns)
  case Nil
  then show ?case by simp
next
  case (Cons s subs)
  then obtain n ns' where n: "nodes g s = Some n" "nullthrows_all g subs = Inr ns'" "ns = n # ns'"
    by (auto simp: getNode_def split: option.splits sum.splits)
  have "node_id n = s" using n(1) assms(1) by (auto simp: keyed_by_id_def)
  then show ?case using Cons.IH[OF n(2)] n(3) by simp
qed

text \<open>The finally block, where the request node and the nodes of the subrequests exist.\<close>

lemma finish_ok:
  assumes k: "keyed_by_id (graph t2)" and n: "nodes (graph t2) i = Some rn" "node_type rn = request_t"
    and subs: "\<forall>s \<in> set subs. hasNode (graph t2) s"
  shows "\<exists>es. finish i (outcome, subs, t2) = (outcome, t2\<lparr>graph := (graph t2)\<lparr>edges := es\<rparr>\<rparr>) \<and>
           set es = {(a, b, k') \<in> set (edges (graph t2)). \<not> (a = i \<and> k' = subrequest \<and> b \<notin> set subs)}
                    \<union> {(i, s, subrequest) |s. s \<in> set subs}"
proof -
  obtain ns where ns: "nullthrows_all (graph t2) subs = Inr ns"
    using nullthrows_all_Inr[OF subs] by blast
  have ids: "map node_id ns = subs" using nullthrows_all_ids[OF k ns] .
  have rid: "node_id rn = i" using n(1) k by (auto simp: keyed_by_id_def)
  have rs: "replaceSubrequests (graph t2) i ns = Inr (replaceNodesConnectedTo (graph t2) rn ns subrequest)"
    using n by (simp add: replaceSubrequests_def getRequestNode_def getNode_def hasNode_def)
  obtain es where es: "replaceNodesConnectedTo (graph t2) rn ns subrequest = (graph t2)\<lparr>edges := es\<rparr>"
    "set es = {(a, b, k') \<in> set (edges (graph t2)). \<not> (a = node_id rn \<and> k' = subrequest \<and> b \<notin> node_id ` set ns)}
                 \<union> {(node_id rn, node_id x, subrequest) |x. x \<in> set ns}"
    using replaceNodesConnectedTo_edges[of "graph t2" rn ns subrequest] by blast
  have img: "node_id ` set ns = set subs" using ids by (metis set_map)
  have "set es = {(a, b, k') \<in> set (edges (graph t2)). \<not> (a = i \<and> k' = subrequest \<and> b \<notin> set subs)}
                    \<union> {(i, s, subrequest) |s. s \<in> set subs}"
    unfolding es(2) rid img[symmetric] by auto
  moreover have "finish i (outcome, subs, t2) = (outcome, t2\<lparr>graph := (graph t2)\<lparr>edges := es\<rparr>\<rparr>)"
    using ns rs es(1) by (simp add: finish_def)
  ultimately show ?thesis by blast
qed

lemma run_call_subs:
  "fst (snd (run_call c ext i subs t)) =
     (case c of RunRequest s \<Rightarrow> set_add (req_id s) subs | _ \<Rightarrow> subs)"
  by (cases c) (simp_all split: prod.splits sum.splits)

text \<open>The ids in the \<open>subRequests\<close> set are those of the requests the body has run.\<close>

lemma run_body_subRequests:
  "set (fst (snd (run_body b ext i subs t))) =
     set subs \<union> {req_id s |s. RunRequest s \<in> set (calls_of b ext i subs t)}"
proof -
  have "(c::api_call) = c" and "(r::request) = r" and
    "\<forall>subs t. set (fst (snd (run_body b ext i subs t))) =
       set subs \<union> {req_id s |s. RunRequest s \<in> set (calls_of b ext i subs t)}"
  proof (induction c and r and b)
    case (Call c k)
    show ?case
    proof (intro allI)
      fix subs t
      obtain rep subs' t' where rc: "run_call c ext i subs t = (rep, subs', t')"
        by (cases "run_call c ext i subs t") auto
      have ih: "set (fst (snd (run_body (k rep) ext i subs' t'))) =
         set subs' \<union> {req_id s |s. RunRequest s \<in> set (calls_of (k rep) ext i subs' t')}"
        using Call(2)[of "k rep"] by auto
      have s': "set subs' = set subs \<union> {req_id s |s. c = RunRequest s}"
        using run_call_subs[of c ext i subs t] rc by (cases c) auto
      have "set (fst (snd (run_body (Call c k) ext i subs t))) =
              set (fst (snd (run_body (k rep) ext i subs' t')))"
        using rc by simp
      moreover have "set (calls_of (Call c k) ext i subs t) =
              insert c (set (calls_of (k rep) ext i subs' t'))"
        using rc by simp
      ultimately show "set (fst (snd (run_body (Call c k) ext i subs t))) =
         set subs \<union> {req_id s |s. RunRequest s \<in> set (calls_of (Call c k) ext i subs t)}"
        using ih s' by auto
    qed
  qed simp_all
  then show ?thesis by blast
qed

lemma hasNode_kept: "kept g g' \<Longrightarrow> hasNode g i \<Longrightarrow> hasNode g' i"
  by (auto simp: kept_def hasNode_def)

text \<open>The nodes of the requests in the \<open>subRequests\<close> set exist.\<close>

lemma settle_nodes [simp]: "nodes (graph (snd (snd (settle i r)))) = nodes (graph (snd (snd r)))"
  by (auto simp: settle_def rejectRequest_def RequestTracker_completeRequest_def Let_def
           split: prod.splits sum.splits)

lemma finish_nodes [simp]: "nodes (graph (snd (finish i r))) = nodes (graph (snd (snd r)))"
  by (auto simp: finish_def replaceSubrequests_nodes split: prod.splits sum.splits)

lemma runRequest_hasNode: "hasNode (graph (snd (runRequest r ext t))) (req_id r)"
proof (cases r)
  case (Request i ty inp run)
  show ?thesis
  proof (cases "hasValidResult t i")
    case True
    then show ?thesis using Request by (simp add: hasValidResult_def hasNode_def)
  next
    case False
    show ?thesis
    proof (cases "startRequest t (stored i ty inp)")
      case (Inl e)
      then have "hasNode (graph t) i"
        by (auto simp: startRequest_def stored_def split: if_splits)
      then show ?thesis
        using Request False Inl
        by (simp add: executeRequest_stages hasNode_def rejectRequest_def Let_def)
    next
      case (Inr t0)
      have "hasNode (graph t0) i"
        using startRequest_nodes[OF Inr] by (auto simp: hasNode_def stored_def)
      moreover have "kept (graph t0) (graph (snd (snd (run_body run ext i [] t0))))"
        using run_nodes_kept(3)[of t0 run ext i "[]"] by (simp add: nodes_kept_def)
      ultimately have "hasNode (graph (snd (snd (run_body run ext i [] t0)))) i"
        by (rule hasNode_kept[rotated])
      then show ?thesis
        using Request False Inr by (simp add: executeRequest_stages hasNode_def)
    qed
  qed
qed

lemma run_call_subRequests_nodes:
  assumes "\<forall>s \<in> set subs. hasNode (graph t) s"
  shows "\<forall>s \<in> set (fst (snd (run_call c ext i subs t))). hasNode (graph (snd (snd (run_call c ext i subs t)))) s"
proof (cases "is_run c")
  case False
  have "fst (snd (run_call c ext i subs t)) = subs"
    using False run_call_subs[of c ext i subs t] by (cases c) (simp_all add: is_run_def)
  moreover have "kept (graph t) (graph (snd (snd (run_call c ext i subs t))))"
    using run_nodes_kept(1)[of t c ext i subs] by (simp add: nodes_kept_def)
  ultimately show ?thesis using assms by (auto intro: hasNode_kept)
next
  case True
  then obtain r where c: "c = RunRequest r" by (cases c) (auto simp: is_run_def)
  have k: "kept (graph t) (graph (snd (runRequest r ext t)))"
    using run_nodes_kept(2)[of t r ext] by (simp add: nodes_kept_def)
  have h: "hasNode (graph (snd (runRequest r ext t))) (req_id r)" by (rule runRequest_hasNode)
  have "fst (snd (run_call c ext i subs t)) = set_add (req_id r) subs"
    using run_call_subs[of c ext i subs t] c by simp
  moreover have "snd (snd (run_call c ext i subs t)) = snd (runRequest r ext t)"
    using c by (simp split: prod.splits sum.splits)
  ultimately show ?thesis
    using k h assms by (auto intro: hasNode_kept)
qed

lemma run_body_subRequests_nodes:
  "(\<forall>s \<in> set subs. hasNode (graph t) s) \<longrightarrow>
   (\<forall>s \<in> set (fst (snd (run_body b ext i subs t))).
      hasNode (graph (snd (snd (run_body b ext i subs t)))) s)"
proof -
  have "(c::api_call) = c" and "(r::request) = r" and
    "\<forall>subs t. (\<forall>s \<in> set subs. hasNode (graph t) s) \<longrightarrow>
       (\<forall>s \<in> set (fst (snd (run_body b ext i subs t))).
          hasNode (graph (snd (snd (run_body b ext i subs t)))) s)"
  proof (induction c and r and b)
    case (Call c k)
    show ?case
    proof (intro allI impI)
      fix subs and t :: RequestTracker
      assume a: "\<forall>s \<in> set subs. hasNode (graph t) s"
      obtain rep subs' t' where rc: "run_call c ext i subs t = (rep, subs', t')"
        by (cases "run_call c ext i subs t") auto
      have "\<forall>s \<in> set subs'. hasNode (graph t') s"
        using run_call_subRequests_nodes[OF a, of c ext i] rc by simp
      then have "\<forall>s \<in> set (fst (snd (run_body (k rep) ext i subs' t'))).
          hasNode (graph (snd (snd (run_body (k rep) ext i subs' t')))) s"
        using Call(2)[of "k rep"] by blast
      then show "\<forall>s \<in> set (fst (snd (run_body (Call c k) ext i subs t))).
          hasNode (graph (snd (snd (run_body (Call c k) ext i subs t)))) s"
        using rc by simp
    qed
  qed simp_all
  then show ?thesis by blast
qed

lemma keptD:
  "kept g g' \<Longrightarrow> nodes g j = Some n \<Longrightarrow>
     \<exists>n'. nodes g' j = Some n' \<and> node_type n' = node_type n \<and> node_id n' = node_id n"
  by (simp add: kept_def)

lemma settle_fields:
  "fst (snd (settle i r)) = fst (snd r)"
  "edges (graph (snd (snd (settle i r)))) = edges (graph (snd (snd r)))"
  by (auto simp: settle_def rejectRequest_def RequestTracker_completeRequest_def Let_def
           split: prod.splits sum.splits)

lemma settle_failed:
  assumes "settle i r = (Inl e, subs, t2)" "hasNode (graph (snd (snd r))) i"
  shows "i \<in> set (invalidNodeIds (graph t2))"
  using assms
  by (auto simp: settle_def rejectRequest_def hasNode_def Let_def split: prod.splits sum.splits)

text \<open>
  What \<open>runRequest\<close> does to a request that has no valid result and whose id is free
  or the id of a request node: it starts the request, runs the body, settles the
  outcome, and replaces the \<open>subrequest\<close> edges of the request; the finally block
  does not throw.
\<close>

lemma runRequest_executed:
  assumes keyed: "keyed_by_id (graph t)" and novalid: "\<not> hasValidResult t i"
    and slot: "case nodes (graph t) i of None \<Rightarrow> True | Some n \<Rightarrow> node_type n = request_t"
  shows "\<exists>t0 out subs t2 es.
           startRequest t (stored i ty inp) = Inr t0 \<and>
           settle i (run_body run ext i [] t0) = (out, subs, t2) \<and>
           runRequest (Request i ty inp run) ext t = (out, t2\<lparr>graph := (graph t2)\<lparr>edges := es\<rparr>\<rparr>) \<and>
           set es = {(a, b, k') \<in> set (edges (graph t2)). \<not> (a = i \<and> k' = subrequest \<and> b \<notin> set subs)}
                    \<union> {(i, s, subrequest) |s. s \<in> set subs} \<and>
           keyed_by_id (graph t2) \<and> hasNode (graph t2) i \<and>
           nodes_kept t t2"
proof -
  obtain t0 where t0: "startRequest t (stored i ty inp) = Inr t0"
    using slot
    by (cases "nodes (graph t) i")
       (auto simp: startRequest_def stored_def hasNode_def getRequestNode_def getNode_def)
  have k0: "keyed_by_id (graph t0)"
    using start_keeps_keyed[OF t0] keyed by (simp add: keeps_keyed_def)
  obtain rn where rn: "nodes (graph t0) i = Some rn" "node_type rn = request_t"
    using startRequest_nodes[OF t0] slot
    by (cases "nodes (graph t) i")
       (auto simp: hasNode_def stored_def nodeFromRequest_def node_type_def)
  let ?rb = "run_body run ext i [] t0"
  obtain out subs t2 where st: "settle i ?rb = (out, subs, t2)" by (cases "settle i ?rb") auto
  have kb: "keyed_by_id (graph (snd (snd ?rb)))"
    using run_keeps_keyed(3)[of t0 run ext i "[]"] k0 by (simp add: keeps_keyed_def)
  have nb: "kept (graph t0) (graph (snd (snd ?rb)))"
    using run_nodes_kept(3)[of t0 run ext i "[]"] by (simp add: nodes_kept_def)
  have n2: "nodes (graph t2) = nodes (graph (snd (snd ?rb)))"
    using settle_nodes[of i ?rb] st by simp
  have k2: "keyed_by_id (graph t2)" using kb n2 by (auto intro: keyed_same_nodes)
  obtain rn2 where rn2: "nodes (graph t2) i = Some rn2" "node_type rn2 = request_t"
    using keptD[OF nb rn(1)] rn(2) n2 by auto
  have sb: "subs = fst (snd ?rb)" using settle_fields(1)[of i ?rb] st by simp
  have "\<forall>s \<in> set (fst (snd ?rb)). hasNode (graph (snd (snd ?rb))) s"
    using run_body_subRequests_nodes[of "[]" t0 run ext i] by simp
  then have ss: "\<forall>s \<in> set subs. hasNode (graph t2) s"
    using sb n2 by (simp add: hasNode_def)
  obtain es where es: "finish i (out, subs, t2) = (out, t2\<lparr>graph := (graph t2)\<lparr>edges := es\<rparr>\<rparr>)"
    "set es = {(a, b, k') \<in> set (edges (graph t2)). \<not> (a = i \<and> k' = subrequest \<and> b \<notin> set subs)}
                    \<union> {(i, s, subrequest) |s. s \<in> set subs}"
    using finish_ok[OF k2 rn2 ss, of out] by blast
  have run: "runRequest (Request i ty inp run) ext t = (out, t2\<lparr>graph := (graph t2)\<lparr>edges := es\<rparr>\<rparr>)"
    using novalid t0 st es(1) by (simp add: executeRequest_stages)
  have "kept (graph t) (graph t0)" using start_nodes_kept[OF t0] by (simp add: nodes_kept_def)
  then have "kept (graph t) (graph t2)"
    using nb n2 by (auto intro: kept_trans kept_same_nodes)
  then show ?thesis
    using t0 st run es(2) k2 rn2 by (auto simp: hasNode_def nodes_kept_def)
qed

lemma runRequest_subrequest_edges:
  assumes keyed: "keyed_by_id (graph t)" and novalid: "\<not> hasValidResult t (req_id r)"
    and slot: "case nodes (graph t) (req_id r) of None \<Rightarrow> True | Some n \<Rightarrow> node_type n = request_t"
  shows "subrequest_targets (graph (snd (runRequest r ext t))) (req_id r) =
           {req_id s |s. RunRequest s \<in> set (api_calls_made r ext t)} \<and>
         (case fst (runRequest r ext t) of
            Inl e \<Rightarrow> req_id r \<in> set (invalidNodeIds (graph (snd (runRequest r ext t))))
          | Inr v \<Rightarrow> True)"
proof (cases r)
  case (Request i ty inp run)
  obtain t0 out subs t2 es where
    t0: "startRequest t (stored i ty inp) = Inr t0" and
    st: "settle i (run_body run ext i [] t0) = (out, subs, t2)" and
    run: "runRequest (Request i ty inp run) ext t = (out, t2\<lparr>graph := (graph t2)\<lparr>edges := es\<rparr>\<rparr>)" and
    es: "set es = {(a, b, k') \<in> set (edges (graph t2)). \<not> (a = i \<and> k' = subrequest \<and> b \<notin> set subs)}
                    \<union> {(i, s, subrequest) |s. s \<in> set subs}" and
    h2: "hasNode (graph t2) i"
    using runRequest_executed[of t i ty inp run ext] assms Request by auto
  have sb: "subs = fst (snd (run_body run ext i [] t0))"
    using settle_fields(1)[of i "run_body run ext i [] t0"] st by simp
  have "set subs = {req_id s |s. RunRequest s \<in> set (calls_of run ext i [] t0)}"
    unfolding sb using run_body_subRequests[of run ext i "[]" t0] by simp
  then have a: "subrequest_targets (graph (snd (runRequest r ext t))) (req_id r) =
           {req_id s |s. RunRequest s \<in> set (api_calls_made r ext t)}"
    using Request run es t0 by (auto simp: subrequest_targets_def api_calls_made_def)
  have hb: "hasNode (graph (snd (snd (run_body run ext i [] t0)))) i"
    using h2 settle_nodes[of i "run_body run ext i [] t0"] st by (simp add: hasNode_def)
  have b: "case fst (runRequest r ext t) of
            Inl e \<Rightarrow> req_id r \<in> set (invalidNodeIds (graph (snd (runRequest r ext t))))
          | Inr v \<Rightarrow> True"
  proof (cases out)
    case (Inl e)
    then have "i \<in> set (invalidNodeIds (graph t2))"
      using settle_failed[of i "run_body run ext i [] t0" e subs t2] st hb by simp
    then show ?thesis using Request run Inl by simp
  next
    case (Inr v)
    then show ?thesis using Request run by simp
  qed
  from a b show ?thesis by simp
qed

lemma nodes_reject [simp]: "nodes (graph (rejectRequest t i)) = nodes (graph t)"
  by (simp add: rejectRequest_def Let_def)

lemma nodes_complete [simp]: "nodes (graph (RequestTracker_completeRequest t i)) = nodes (graph t)"
  by (simp add: RequestTracker_completeRequest_def)

lemma reject_invalid_mono:
  "j \<in> set (invalidNodeIds (graph t)) \<Longrightarrow> j \<in> set (invalidNodeIds (graph (rejectRequest t i)))"
  by (simp add: rejectRequest_def Let_def)

lemma child_failure_propagates:
  assumes keyed: "keyed_by_id (graph t)" and novalid: "\<not> hasValidResult t i"
    and slot: "case nodes (graph t) i of None \<Rightarrow> True | Some n \<Rightarrow> node_type n = request_t"
    and propag: "\<And>e'. k (Thrown e') = Throw e'"
    and ne: "req_id c \<noteq> i"
    and cslot: "case nodes (graph t) (req_id c) of None \<Rightarrow> True | Some n \<Rightarrow> node_type n = request_t"
    and fails: "fst (runRequest c ext (after_start t (Request i ty inp (Call (RunRequest c) k)))) = Inl e"
  shows "fst (runRequest (Request i ty inp (Call (RunRequest c) k)) ext t) = Inl e \<and>
         subrequest_targets (graph (snd (runRequest (Request i ty inp (Call (RunRequest c) k)) ext t))) i
           = {req_id c} \<and>
         i \<in> set (invalidNodeIds (graph (snd (runRequest (Request i ty inp (Call (RunRequest c) k)) ext t)))) \<and>
         req_id c \<in> set (invalidNodeIds (graph (snd (runRequest (Request i ty inp (Call (RunRequest c) k)) ext t))))"
proof -
  let ?P = "Request i ty inp (Call (RunRequest c) k)"
  obtain t0 out subs t2 es where
    t0: "startRequest t (stored i ty inp) = Inr t0" and
    st: "settle i (run_body (Call (RunRequest c) k) ext i [] t0) = (out, subs, t2)" and
    run: "runRequest ?P ext t = (out, t2\<lparr>graph := (graph t2)\<lparr>edges := es\<rparr>\<rparr>)" and
    es: "set es = {(a, b, k') \<in> set (edges (graph t2)). \<not> (a = i \<and> k' = subrequest \<and> b \<notin> set subs)}
                    \<union> {(i, s, subrequest) |s. s \<in> set subs}" and
    h2: "hasNode (graph t2) i"
    using runRequest_executed[of t i ty inp "Call (RunRequest c) k" ext] keyed novalid slot by auto
  have as: "after_start t ?P = t0" using t0 by (simp add: after_start_def)
  obtain tc where tc: "runRequest c ext t0 = (Inl e, tc)"
    using fails as by (cases "runRequest c ext t0") auto
  have body: "run_body (Call (RunRequest c) k) ext i [] t0 = (Inl e, [req_id c], tc)"
    using tc propag by (simp add: set_add_def)
  have st': "out = Inl e" "subs = [req_id c]" "t2 = rejectRequest tc i"
    using st unfolding body by (simp_all add: settle_def)
  have hb: "hasNode (graph tc) i"
    using h2 unfolding st'(3) by (simp add: hasNode_def)
  have k0: "keyed_by_id (graph t0)"
    using start_keeps_keyed[OF t0] keyed by (simp add: keeps_keyed_def)
  have n0: "nodes (graph t0) (req_id c) = nodes (graph t) (req_id c)"
    using startRequest_nodes[OF t0] ne by (auto simp: stored_def)
  have cslot0: "case nodes (graph t0) (req_id c) of None \<Rightarrow> True | Some n \<Rightarrow> node_type n = request_t"
    using cslot n0 by simp
  have cnovalid: "\<not> hasValidResult t0 (req_id c)"
  proof
    assume v: "hasValidResult t0 (req_id c)"
    then obtain n where n: "nodes (graph t0) (req_id c) = Some n"
      by (auto simp: hasValidResult_def)
    then have "node_type n = request_t" using cslot0 by simp
    then obtain sr where "node_value n = RequestValue sr"
      by (cases "node_value n") (simp_all add: node_type_def)
    then have "\<exists>v. getRequestResult t0 (req_id c) = Inr v"
      using n by (simp add: getRequestResult_def getNode_def)
    moreover have "runRequest c ext t0 = (getRequestResult t0 (req_id c), t0)"
      using v by (cases c) simp
    ultimately show False using tc by auto
  qed
  have "case fst (runRequest c ext t0) of
            Inl e \<Rightarrow> req_id c \<in> set (invalidNodeIds (graph (snd (runRequest c ext t0))))
          | Inr v \<Rightarrow> True"
    using runRequest_subrequest_edges[OF k0 cnovalid cslot0, of ext] by simp
  then have cin: "req_id c \<in> set (invalidNodeIds (graph tc))" using tc by simp
  have iin: "i \<in> set (invalidNodeIds (graph t2))"
    using st'(3) hb by (simp add: rejectRequest_def hasNode_def Let_def)
  have cin2: "req_id c \<in> set (invalidNodeIds (graph t2))"
    using cin st'(3) by (simp add: reject_invalid_mono)
  show ?thesis
    using run st'(1,2) es iin cin2 by (auto simp: subrequest_targets_def)
qed

lemma edges_grow_refl [simp]: "edges_grow g g"
  by (simp add: edges_grow_def)

lemma edges_grow_trans: "edges_grow g1 g2 \<Longrightarrow> edges_grow g2 g3 \<Longrightarrow> edges_grow g1 g3"
  by (auto simp: edges_grow_def)

lemma edges_grow_ensure [simp]: "edges_grow g (ensureEdge (ensureNode g n) a b k)"
  by (auto simp: edges_grow_def)

lemma edges_grow_ensureNode [simp]: "edges_grow g (ensureNode g n)"
  by (simp add: edges_grow_def)

lemma edges_grow_ensureEdge [simp]: "edges_grow g (ensureEdge g a b k)"
  by (auto simp: edges_grow_def)

lemma edges_grow_addEdge [simp]: "edges_grow g (addEdge g a b k)"
  by (auto simp: edges_grow_def addEdge_def)

lemma edges_grow_addFileNameParts: "edges_grow g (snd (addFileNameParts parts lastNode g))"
proof (induction parts arbitrary: lastNode g)
  case Nil
  show ?case by simp
next
  case (Cons part parts)
  let ?n = "nodeFromFileName part"
  let ?g2 = "(case lastNode of None \<Rightarrow> ensureNode g ?n
                | Some l \<Rightarrow> ensureEdge (ensureNode g ?n) (node_id l) (node_id ?n) dirname)"
  have "edges_grow g ?g2" by (cases lastNode) simp_all
  moreover have "edges_grow ?g2 (snd (addFileNameParts parts (Some ?n) ?g2))" by (rule Cons.IH)
  ultimately show ?case by (simp add: Let_def edges_grow_trans)
qed

lemma edges_grow_invalidateOnFileCreate:
  assumes "invalidateOnFileCreate g i inp = Inr g'"
  shows "edges_grow g g'"
proof -
  obtain rn where rn: "getRequestNode g i = Inr rn"
    using assms by (auto simp: invalidateOnFileCreate_def split: sum.splits)
  show ?thesis
  proof (cases "glob inp")
    case (Some gl)
    then have "g' = ensureEdge (ensureNode g (nodeFromGlob gl)) (node_id rn) (node_id (nodeFromGlob gl)) invalidated_by_create"
      using assms rn by (simp add: invalidateOnFileCreate_def)
    then show ?thesis by simp
  next
    case None
    note noglob = None
    show ?thesis
    proof (cases "extensions inp")
      case (Some exts)
      let ?n = "nodeFromExtensionlessFilePath (filePath inp) exts"
      show ?thesis
      proof (cases "getNode g (node_id ?n)")
        case None
        then have "g' = ensureEdge (ensureNode g ?n) (node_id rn) (node_id ?n) invalidated_by_create"
          using assms rn noglob Some by (simp add: invalidateOnFileCreate_def Let_def)
        then show ?thesis by simp
      next
        case found: (Some n')
        then obtain p old where v: "node_value n' = ExtensionlessFileValue p old"
          using assms rn noglob Some
          by (auto simp: invalidateOnFileCreate_def Let_def split: node_value.splits)
        let ?n'' = "n'\<lparr>node_value := ExtensionlessFileValue p (new_Set (old @ exts))\<rparr>"
        let ?g1 = "g\<lparr>nodes := (nodes g)(node_id ?n \<mapsto> ?n'')\<rparr>"
        have g': "g' = ensureEdge (ensureNode ?g1 ?n'') (node_id rn) (node_id ?n'') invalidated_by_create"
          using assms rn noglob Some found v by (simp add: invalidateOnFileCreate_def Let_def)
        have "edges_grow g ?g1" by (simp add: edges_grow_def)
        moreover have "edges_grow ?g1 g'" unfolding g' by simp
        ultimately show ?thesis by (rule edges_grow_trans)
      qed
    next
      case None
      then obtain fname aboveP where fa: "fileName inp = Some fname" "aboveFilePath inp = Some aboveP"
        using assms rn noglob
        by (auto simp: invalidateOnFileCreate_def Let_def split: option.splits)
      obtain lastNode g1 where parts: "addFileNameParts (rev (split CHR ''/'' fname)) None g = (lastNode, g1)"
        by (cases "addFileNameParts (rev (split CHR ''/'' fname)) None g") auto
      let ?n = "nodeFromFilePath aboveP"
      let ?g2 = "ensureNode g1 ?n"
      let ?g3 = "(case lastNode of
                    None \<Rightarrow> ?g2
                  | Some ln \<Rightarrow>
                      if \<not> hasEdge ?g2 (node_id ln) (node_id ?n) invalidated_by_create_above
                      then addEdge ?g2 (node_id ?n) (node_id ln) invalidated_by_create_above
                      else ?g2)"
      have g': "g' = ensureEdge (ensureNode ?g3 ?n) (node_id rn) (node_id ?n) invalidated_by_create"
        using assms rn noglob None fa parts by (simp add: invalidateOnFileCreate_def Let_def)
      have "edges_grow g g1"
        using edges_grow_addFileNameParts[of g "rev (split CHR ''/'' fname)" None] parts by simp
      moreover have "edges_grow g1 ?g2" by simp
      moreover have "edges_grow ?g2 ?g3" by (cases lastNode) simp_all
      moreover have "edges_grow ?g3 g'" unfolding g' by simp
      ultimately show ?thesis by (blast intro: edges_grow_trans)
    qed
  qed
qed

lemma api_edges_grow:
  assumes "\<not> is_run c"
  shows "edges_grow (graph t) (graph (snd (snd (run_call c ext i subs t))))"
proof -
  have gr: "edges_grow (graph t) (graph (snd (graph_reply t r)))"
    if "\<And>g. r = Inr g \<Longrightarrow> edges_grow (graph t) g" for r
    using that by (cases r) (simp_all add: graph_reply_def)
  show ?thesis
  proof (cases c)
    case (InvalidateOnFileCreate inp)
    have "edges_grow (graph t) (graph (snd (graph_reply t (invalidateOnFileCreate (graph t) i inp))))"
      by (rule gr) (rule edges_grow_invalidateOnFileCreate)
    then show ?thesis using InvalidateOnFileCreate by (auto split: prod.splits)
  next
    case (InvalidateOnFileDelete fp)
    have "edges_grow (graph t) (graph (snd (graph_reply t (invalidateOnFileDelete (graph t) i fp))))"
      by (rule gr) (auto simp: invalidateOnFileDelete_def Let_def split: sum.splits)
    then show ?thesis using InvalidateOnFileDelete by (auto split: prod.splits)
  next
    case (InvalidateOnFileUpdate fp)
    have "edges_grow (graph t) (graph (snd (graph_reply t (invalidateOnFileUpdate (graph t) i fp))))"
      by (rule gr) (auto simp: invalidateOnFileUpdate_def Let_def split: sum.splits)
    then show ?thesis using InvalidateOnFileUpdate by (auto split: prod.splits)
  next
    case InvalidateOnStartup
    have "edges_grow (graph t) (graph (snd (graph_reply t (invalidateOnStartup (graph t) i))))"
      by (rule gr) (auto simp: invalidateOnStartup_def edges_grow_def split: sum.splits)
    then show ?thesis using InvalidateOnStartup by (auto split: prod.splits)
  next
    case (InvalidateOnEnvChange e)
    have "edges_grow (graph t) (graph (snd (graph_reply t (api_invalidateOnEnvChange t i e))))"
      by (rule gr)
         (auto simp: api_invalidateOnEnvChange_def invalidateOnEnvChange_def Let_def split: sum.splits)
    then show ?thesis using InvalidateOnEnvChange by (auto split: prod.splits)
  next
    case (InvalidateOnOptionChange opt)
    have "edges_grow (graph t) (graph (snd (graph_reply t (api_invalidateOnOptionChange ext t i opt))))"
      by (rule gr)
         (auto simp: api_invalidateOnOptionChange_def invalidateOnOptionChange_def Let_def
               split: sum.splits)
    then show ?thesis using InvalidateOnOptionChange by (auto split: prod.splits)
  next
    case GetInvalidations
    then show ?thesis by (simp split: sum.splits)
  next
    case (StoreResult res)
    then show ?thesis
      by (auto simp: edges_grow_def storeResult_def split: option.splits node_value.splits)
  next
    case (RunRequest r)
    then show ?thesis using assms by (simp add: is_run_def)
  qed
qed

text \<open>An edge that is not a \<open>subrequest\<close> edge stays while its source is not started again.\<close>

lemma clearInvalidations_edges:
  "set (edges (clearInvalidations g n)) =
     {(a, b, k) \<in> set (edges g).
        \<not> (a = node_id n \<and> k \<in> {invalidated_by_update, invalidated_by_delete, invalidated_by_create})}"
proof -
  have one: "set (edges (replaceNodesConnectedTo g' n [] k)) =
       {(a, b, k') \<in> set (edges g'). \<not> (a = node_id n \<and> k' = k)}" for g' k
    using replaceNodesConnectedTo_edges[of g' n "[]" k] by auto
  show ?thesis
    by (auto simp: clearInvalidations_def Let_def one)
qed

lemma edges_RequestGraph_addNode [simp]: "edges (RequestGraph_addNode g n) = edges g"
  by (simp add: RequestGraph_addNode_def Graph_addNode_def Let_def)

lemma start_keeps_edge:
  assumes "sr_id r \<noteq> a" "startRequest t r = Inr t'"
  shows "keeps_edge (a, b, k) t t'"
proof -
  have "(a, b, k) \<in> set (edges (graph t'))"
    if kk: "keyed_by_id (graph t)" and e: "(a, b, k) \<in> set (edges (graph t))"
  proof (cases "hasNode (graph t) (sr_id r)")
    case False
    then show ?thesis using assms(2) e by (auto simp: startRequest_def)
  next
    case True
    then obtain n where n: "getRequestNode (graph t) (sr_id r) = Inr n"
      and t': "edges (graph t') = edges (clearInvalidations (graph t) n)"
      using assms(2) by (auto simp: startRequest_def split: sum.splits)
    have "node_id n = sr_id r"
      using n kk by (auto simp: getRequestNode_Inr keyed_by_id_def)
    then show ?thesis using e assms(1) unfolding t' clearInvalidations_edges by auto
  qed
  then show ?thesis
    using start_keeps_keyed[OF assms(2)] by (auto simp: keeps_edge_def keeps_keyed_def)
qed

lemma replace_keeps_edge:
  assumes "k \<noteq> subrequest" "replaceSubrequests (graph t) i ns = Inr g"
  shows "keeps_edge (a, b, k) t (t\<lparr>graph := g\<rparr>)"
proof -
  obtain rn where g: "g = replaceNodesConnectedTo (graph t) rn ns subrequest"
    using assms(2)
    by (auto simp: replaceSubrequests_def getRequestNode_def getNode_def hasNode_def
             split: sum.splits option.splits if_splits)
  have "(a, b, k) \<in> set (edges g)" if "(a, b, k) \<in> set (edges (graph t))"
    using replaceNodesConnectedTo_edges[of "graph t" rn ns subrequest] that assms(1) g by auto
  then show ?thesis
    using replace_keeps_keyed[OF assms(2)] by (auto simp: keeps_edge_def keeps_keyed_def)
qed

lemma run_keeps_edge:
  assumes k: "k \<noteq> subrequest"
  shows "call_started c \<subseteq> - {a} \<longrightarrow> (\<forall>i subs t. keeps_edge (a, b, k) t (snd (snd (run_call c ext i subs t))))"
    and "request_started r \<subseteq> - {a} \<longrightarrow> (\<forall>t. keeps_edge (a, b, k) t (snd (runRequest r ext t)))"
    and "body_started bd \<subseteq> - {a} \<longrightarrow> (\<forall>i subs t. keeps_edge (a, b, k) t (snd (snd (run_body bd ext i subs t))))"
proof -
  have refl: "\<And>t. keeps_edge (a, b, k) t t" by (simp add: keeps_edge_def)
  have trans: "\<And>t1 t2 t3. keeps_edge (a, b, k) t1 t2 \<Longrightarrow> keeps_edge (a, b, k) t2 t3 \<Longrightarrow> keeps_edge (a, b, k) t1 t3"
    by (simp add: keeps_edge_def)
  have api: "keeps_edge (a, b, k) t (snd (snd (run_call c ext i subs t)))" if "\<not> is_run c" for c i subs t
    using api_edges_grow[OF that, of t ext i subs] api_keeps_keyed[OF that, of t ext i subs]
    by (auto simp: keeps_edge_def keeps_keyed_def edges_grow_def)
  have start: "\<And>t r t'. sr_id r \<in> - {a} \<Longrightarrow> startRequest t r = Inr t' \<Longrightarrow> keeps_edge (a, b, k) t t'"
    using start_keeps_edge by auto
  have complete: "\<And>t i. i \<in> - {a} \<Longrightarrow> keeps_edge (a, b, k) t (RequestTracker_completeRequest t i)"
    by (simp add: keeps_edge_def keyed_by_id_def RequestTracker_completeRequest_def)
  have reject: "\<And>t i. i \<in> - {a} \<Longrightarrow> keeps_edge (a, b, k) t (rejectRequest t i)"
    by (simp add: keeps_edge_def keyed_by_id_def rejectRequest_def Let_def)
  have replace: "\<And>t i ns g. i \<in> - {a} \<Longrightarrow> replaceSubrequests (graph t) i ns = Inr g \<Longrightarrow>
      keeps_edge (a, b, k) t (t\<lparr>graph := g\<rparr>)"
    using replace_keeps_edge[OF k] by auto
  note rl = run_rel[where Rel = "keeps_edge (a, b, k)" and A = "- {a}" and ext = ext,
      OF refl trans api start complete reject replace]
  show "call_started c \<subseteq> - {a} \<longrightarrow> (\<forall>i subs t. keeps_edge (a, b, k) t (snd (snd (run_call c ext i subs t))))"
    using rl(1)[where c = c] by simp
  show "request_started r \<subseteq> - {a} \<longrightarrow> (\<forall>t. keeps_edge (a, b, k) t (snd (runRequest r ext t)))"
    using rl(2)[where r = r] by simp
  show "body_started bd \<subseteq> - {a} \<longrightarrow> (\<forall>i subs t. keeps_edge (a, b, k) t (snd (snd (run_body bd ext i subs t))))"
    using rl(3)[where b = bd] by simp
qed

lemma invalidateOnFileUpdate_declares:
  assumes "keyed_by_id g" "nodes g i = Some rn" "node_type rn = request_t"
  shows "\<exists>g'. invalidateOnFileUpdate g i p = Inr g' \<and>
           (i, p, invalidated_by_update) \<in> set (edges g') \<and> hasNode g' p"
proof -
  have "node_id rn = i" using assms by (auto simp: keyed_by_id_def)
  then show ?thesis
    using assms
    by (auto simp: invalidateOnFileUpdate_def getRequestNode_def getNode_def Let_def
        nodeFromFilePath_def hasNode_def nodes_ensureNode)
qed

text \<open>
  The body of the request \<open>i\<close> has called \<open>invalidateOnFileUpdate p\<close> and has run
  no request of the id \<open>i\<close>: when it ends, the edge from \<open>i\<close> to \<open>p\<close> is there.
\<close>

lemma declared_update_edge:
  "\<forall>subs t. keyed_by_id (graph t) \<longrightarrow>
      (\<exists>rn. nodes (graph t) i = Some rn \<and> node_type rn = request_t) \<longrightarrow>
      InvalidateOnFileUpdate p \<in> set (calls_of b ext i subs t) \<longrightarrow>
      i \<notin> body_started b \<longrightarrow>
      (i, p, invalidated_by_update) \<in> set (edges (graph (snd (snd (run_body b ext i subs t))))) \<and>
      hasNode (graph (snd (snd (run_body b ext i subs t)))) p"
proof -
  have "(c::api_call) = c" and "(r::request) = r" and
    "\<forall>subs t. keyed_by_id (graph t) \<longrightarrow>
      (\<exists>rn. nodes (graph t) i = Some rn \<and> node_type rn = request_t) \<longrightarrow>
      InvalidateOnFileUpdate p \<in> set (calls_of b ext i subs t) \<longrightarrow>
      i \<notin> body_started b \<longrightarrow>
      (i, p, invalidated_by_update) \<in> set (edges (graph (snd (snd (run_body b ext i subs t))))) \<and>
      hasNode (graph (snd (snd (run_body b ext i subs t)))) p"
  proof (induction c and r and b)
    case (Call c k)
    show ?case
    proof (intro allI impI)
      fix subs and t :: RequestTracker
      assume kk: "keyed_by_id (graph t)"
        and rn: "\<exists>rn. nodes (graph t) i = Some rn \<and> node_type rn = request_t"
        and mem: "InvalidateOnFileUpdate p \<in> set (calls_of (Call c k) ext i subs t)"
        and fresh: "i \<notin> body_started (Call c k)"
      obtain rep subs' t' where rc: "run_call c ext i subs t = (rep, subs', t')"
        by (cases "run_call c ext i subs t") auto
      have t'eq: "t' = snd (snd (run_call c ext i subs t))" using rc by simp
      have kk': "keyed_by_id (graph t')"
        using run_keeps_keyed(1)[of t c ext i subs] kk t'eq by (simp add: keeps_keyed_def)
      have kept': "kept (graph t) (graph t')"
        using run_nodes_kept(1)[of t c ext i subs] t'eq by (simp add: nodes_kept_def)
      have rn': "\<exists>rn. nodes (graph t') i = Some rn \<and> node_type rn = request_t"
        using rn keptD[OF kept'] by metis
      have fk: "i \<notin> body_started (k rep)" using fresh by auto
      let ?end = "snd (snd (run_body (k rep) ext i subs' t'))"
      have body: "snd (snd (run_body (Call c k) ext i subs t)) = ?end" using rc by simp
      show "(i, p, invalidated_by_update) \<in> set (edges (graph (snd (snd (run_body (Call c k) ext i subs t))))) \<and>
            hasNode (graph (snd (snd (run_body (Call c k) ext i subs t)))) p"
      proof (cases "c = InvalidateOnFileUpdate p")
        case True
        obtain rn0 where rn0: "nodes (graph t) i = Some rn0" "node_type rn0 = request_t"
          using rn by blast
        obtain g' where g': "invalidateOnFileUpdate (graph t) i p = Inr g'"
          "(i, p, invalidated_by_update) \<in> set (edges g')" "hasNode g' p"
          using invalidateOnFileUpdate_declares[OF kk rn0] by blast
        have "t' = t\<lparr>graph := g'\<rparr>"
          using rc True g'(1) by (simp add: graph_reply_def)
        then have e': "(i, p, invalidated_by_update) \<in> set (edges (graph t'))" and h': "hasNode (graph t') p"
          using g' by simp_all
        have "keeps_edge (i, p, invalidated_by_update) t' ?end"
          using run_keeps_edge(3)[of invalidated_by_update "k rep" i p ext] fk by auto
        then have "(i, p, invalidated_by_update) \<in> set (edges (graph ?end))"
          using kk' e' by (simp add: keeps_edge_def)
        moreover have "hasNode (graph ?end) p"
          using run_nodes_kept(3)[of t' "k rep" ext i subs'] h'
          by (auto simp: nodes_kept_def intro: hasNode_kept)
        ultimately show ?thesis using body by simp
      next
        case False
        then have "InvalidateOnFileUpdate p \<in> set (calls_of (k rep) ext i subs' t')"
          using mem rc by auto
        then show ?thesis
          using Call(2)[of "k rep"] kk' rn' fk body by auto
      qed
    qed
  qed simp_all
  then show ?thesis by blast
qed
section \<open>Termination of the invalidation walk\<close>

text \<open>
  Claim C7, as the code has it. \<open>invalidateNode\<close> keeps no visited set. It returns
  (with a graph or with a failed invariant) on every graph whose node map is keyed by
  node id and whose \<open>subrequest\<close> edges have no cycle.
\<close>

theorem invalidateNode_returns_when_acyclic:
  "keyed_by_id g \<Longrightarrow> acyclic (subrequest_rel g) \<Longrightarrow> \<exists>r. invalidateNode n g = Some r"
  using walk_node[of g n "invalidNodeIds g"] by (auto simp: invalidateNode_def)

theorem invalidateNode_returns_when_acyclic_witness:
  "keyed_by_id parent_child_graph \<and> acyclic (subrequest_rel parent_child_graph) \<and>
   (\<exists>r. invalidateNode C_node parent_child_graph = Some r)"
  using invalidateNode_returns_when_acyclic[OF keyed_parent_child acyclic_parent_child, of C_node]
  by (simp add: keyed_parent_child acyclic_parent_child)

text \<open>
  Claim C7 as stated fails: once a request has run a subrequest of its own id, its
  node has a \<open>subrequest\<close> edge to itself, and \<open>invalidateNode\<close> on it never returns.
\<close>

theorem invalidateNode_diverges_on_self_subrequest:
  "invalidateNode P_node (graph (snd (runRequest self_request ext0 empty_tracker))) = None"
  by (rule walk_diverges[where qs = "[]"])
     (simp_all add: self_graph P_node_def nodeFromRequest_def node_type_def hasNode_def
        getNodesConnectedTo_def List.map_filter_def empty_graph_def)

section \<open>Storing a result\<close>

text \<open>
  Claim C10. \<open>storeResult\<close> has no exception (it is a total function to trackers).
  Where no node has the id, or the node is not a request node, the tracker is left as
  it is. Where a request node has the id, the node gets the result and keeps its id,
  type and input; every other node, the edges, the six id sets, the options and the
  signal are unchanged.
\<close>

theorem storeResult_changes_only_the_result:
  fixes t :: RequestTracker
  shows "((getNode (graph t) i = None \<or>
           (\<exists>n. getNode (graph t) i = Some n \<and> node_type n \<noteq> request_t))
            \<longrightarrow> storeResult t i v = t) \<and>
         (\<forall>n r. getNode (graph t) i = Some n \<and> node_value n = RequestValue r \<longrightarrow>
            nodes (graph (storeResult t i v)) i =
              Some (n\<lparr>node_value := RequestValue (r\<lparr>sr_result := Some v\<rparr>)\<rparr>)) \<and>
         (\<forall>j. j \<noteq> i \<longrightarrow> nodes (graph (storeResult t i v)) j = nodes (graph t) j) \<and>
         storeResult t i v = t\<lparr>graph := (graph t)\<lparr>nodes := nodes (graph (storeResult t i v))\<rparr>\<rparr>"
  by (auto simp: storeResult_def getNode_def node_type_def split: option.splits node_value.splits)

theorem storeResult_changes_only_the_result_witness:
  "storeResult empty_tracker ''P'' (Num 42) = empty_tracker \<and>
   storeResult (empty_tracker\<lparr>graph := empty_graph\<lparr>nodes := [''F'' \<mapsto> nodeFromFilePath ''F'']\<rparr>\<rparr>)
      ''F'' (Num 42) =
     empty_tracker\<lparr>graph := empty_graph\<lparr>nodes := [''F'' \<mapsto> nodeFromFilePath ''F'']\<rparr>\<rparr> \<and>
   nodes (graph (storeResult (empty_tracker\<lparr>graph := parent_child_graph\<rparr>) ''P'' (Num 42))) ''P'' =
     Some (nodeFromRequest \<lparr>sr_id = ''P'', sr_type = ''t'', sr_input = Undefined,
                            sr_result = Some (Num 42)\<rparr>) \<and>
   nodes (graph (storeResult (empty_tracker\<lparr>graph := parent_child_graph\<rparr>) ''P'' (Num 42))) ''C'' =
     Some C_node"
  using storeResult_changes_only_the_result[of empty_tracker "''P''" "Num 42"]
    storeResult_changes_only_the_result
      [of "empty_tracker\<lparr>graph := empty_graph\<lparr>nodes := [''F'' \<mapsto> nodeFromFilePath ''F'']\<rparr>\<rparr>"
          "''F''" "Num 42"]
    storeResult_changes_only_the_result
      [of "empty_tracker\<lparr>graph := parent_child_graph\<rparr>" "''P''" "Num 42"]
  by (simp add: getNode_def empty_tracker_def empty_graph_def parent_child_graph_def P_node_def
      C_node_def nodeFromRequest_def nodeFromFilePath_def node_type_def)

section \<open>What the responder returns\<close>

text \<open>
  Claim C5, as the code has it. \<open>respondToFSEvents\<close> returns
  \<open>invalidNodeIds.size > 0\<close>: whether some request is invalid once the batch is
  processed, be it invalid from before or by this batch. So an empty batch returns
  whether some request was invalid already. On a graph that is ready for the
  responder, every batch is processed to the end, the invalid set only grows, and the
  result says whether it is non-empty.
\<close>

theorem respondToFSEvents_returns_invalid_nonempty:
  "respondToFSEvents ext [] g = Some (Inr (invalidNodeIds g \<noteq> [], g)) \<and>
   (responder_ready g \<longrightarrow>
      (\<exists>ys. respondToFSEvents ext evs g = Some (Inr (ys \<noteq> [], g\<lparr>invalidNodeIds := ys\<rparr>)) \<and>
            set (invalidNodeIds g) \<subseteq> set ys))"
  using respondToFSEvents_total[of g ext evs] by (auto simp: respondToFSEvents_def)

theorem respondToFSEvents_returns_invalid_nonempty_witness:
  "responder_ready parent_child_graph \<and>
   (\<exists>ys. respondToFSEvents ext0 [\<lparr>ev_path = ''/a/b.js'', ev_type = update\<rparr>] parent_child_graph =
            Some (Inr (ys \<noteq> [], parent_child_graph\<lparr>invalidNodeIds := ys\<rparr>)) \<and>
          set (invalidNodeIds parent_child_graph) \<subseteq> set ys)"
  using respondToFSEvents_returns_invalid_nonempty
          [of ext0 parent_child_graph "[\<lparr>ev_path = ''/a/b.js'', ev_type = update\<rparr>]"]
    responder_ready_parent_child
  by simp

text \<open>
  Claim C5 as stated fails: after a request has failed it is invalid, and the
  responder, given the empty batch, returns \<open>true\<close> and leaves the graph as it is.
\<close>

theorem respondToFSEvents_empty_batch_true:
  "respondToFSEvents ext0 [] (graph (snd (runRequest failing_request ext0 empty_tracker))) =
     Some (Inr (True, graph (snd (runRequest failing_request ext0 empty_tracker))))"
  by (simp add: respondToFSEvents_def rejected_graph empty_graph_def)

section \<open>Declaring an extensionless file twice\<close>

text \<open>
  Claim C8. When the request node exists and an extensionless file node for the path
  exists, \<open>invalidateOnFileCreate\<close> with \<open>filePath\<close> and \<open>extensions\<close> (and no
  \<open>glob\<close>) returns; afterwards the node's extension set is the union of its previous
  set and the new one, and the \<open>invalidated_by_create\<close> edge from the request to the
  node is there.
\<close>

theorem invalidateOnFileCreate_unions_extensions:
  assumes "keyed_by_id g"
    and "getRequestNode g requestId = Inr requestNode"
    and "glob inp = None" and "extensions inp = Some exts"
    and "getNode g (extensionlessFileNodeId (filePath inp)) = Some n"
    and "node_value n = ExtensionlessFileValue p old"
  shows "\<exists>g' n' es. invalidateOnFileCreate g requestId inp = Inr g' \<and>
           getNode g' (extensionlessFileNodeId (filePath inp)) = Some n' \<and>
           node_value n' = ExtensionlessFileValue p es \<and>
           set es = set old \<union> set exts \<and>
           hasEdge g' requestId (extensionlessFileNodeId (filePath inp)) invalidated_by_create"
proof -
  let ?i = "extensionlessFileNodeId (filePath inp)"
  let ?n'' = "n\<lparr>node_value := ExtensionlessFileValue p (new_Set (old @ exts))\<rparr>"
  let ?g1 = "g\<lparr>nodes := (nodes g)(?i \<mapsto> ?n'')\<rparr>"
  have rid: "node_id requestNode = requestId"
    using assms(1,2) by (auto simp: getRequestNode_Inr keyed_by_id_def)
  have nid: "node_id n = ?i"
    using assms(1,5) by (auto simp: keyed_by_id_def getNode_def)
  have has: "hasNode ?g1 ?i" by (simp add: hasNode_def)
  have eq: "invalidateOnFileCreate g requestId inp = Inr (ensureEdge ?g1 requestId ?i invalidated_by_create)"
    using assms has rid nid
    by (simp add: invalidateOnFileCreate_def nodeFromExtensionlessFilePath_def ensureNode_def Let_def)
  have "getNode (ensureEdge ?g1 requestId ?i invalidated_by_create) ?i = Some ?n''"
    by (simp add: ensureEdge_def addEdge_def getNode_def)
  moreover have "hasEdge (ensureEdge ?g1 requestId ?i invalidated_by_create) requestId ?i invalidated_by_create"
    by (simp add: ensureEdge_def addEdge_def hasEdge_def)
  ultimately show ?thesis using eq by (intro exI[of _ "ensureEdge ?g1 requestId ?i invalidated_by_create"] exI[of _ ?n''] exI[of _ "new_Set (old @ exts)"]) auto
qed

theorem invalidateOnFileCreate_unions_extensions_witness:
  "keyed_by_id foo_graph \<and> getRequestNode foo_graph ''P'' = Inr P_node \<and>
   (\<exists>g' n' es. invalidateOnFileCreate foo_graph ''P'' foo_invalidation = Inr g' \<and>
      getNode g' ''extensionless_file:/src/foo'' = Some n' \<and>
      node_value n' = ExtensionlessFileValue ''/src/foo'' es \<and>
      set es = {''.ts'', ''.js''} \<and>
      hasEdge g' ''P'' ''extensionless_file:/src/foo'' invalidated_by_create)"
proof -
  have k: "keyed_by_id foo_graph"
    by (simp add: keyed_by_id_def foo_graph_def empty_graph_def P_node_def nodeFromRequest_def
        nodeFromExtensionlessFilePath_def extensionlessFileNodeId_def)
  have r: "getRequestNode foo_graph ''P'' = Inr P_node"
    by (simp add: getRequestNode_def getNode_def foo_graph_def empty_graph_def P_node_def
        nodeFromRequest_def node_type_def)
  have n: "getNode foo_graph (extensionlessFileNodeId (filePath foo_invalidation)) =
             Some (nodeFromExtensionlessFilePath ''/src/foo'' [''.ts''])"
    by (simp add: getNode_def foo_graph_def empty_graph_def foo_invalidation_def
        extensionlessFileNodeId_def)
  have v: "node_value (nodeFromExtensionlessFilePath ''/src/foo'' [''.ts'']) =
             ExtensionlessFileValue ''/src/foo'' [''.ts'']"
    by (simp add: nodeFromExtensionlessFilePath_def)
  have i: "extensionlessFileNodeId (filePath foo_invalidation) = ''extensionless_file:/src/foo''"
    by (simp add: foo_invalidation_def extensionlessFileNodeId_def)
  from invalidateOnFileCreate_unions_extensions[OF k r _ _ n v, of "[''.js'', ''.ts'']"]
  show ?thesis using k r by (simp add: i foo_invalidation_def extensionlessFileNodeId_def insert_commute)
qed

section \<open>An environment variable that is not set\<close>

text \<open>
  Claim C9. When \<open>options.env\<close> has no value, or the empty string, for \<open>e\<close>, the
  api's \<open>invalidateOnEnvChange e\<close> is \<open>graph.invalidateOnEnvChange\<close> with the empty
  string as the captured value: a new env node holds it. On a graph as the tracker
  keeps it (the request node exists, a node with the id of the env node is the env
  node of \<open>e\<close>, no \<open>subrequest\<close> cycle), \<open>invalidateEnvNodes\<close> with \<open>e\<close> still not
  set then returns and has invalidated the request: \<open>undefined\<close> differs from every
  captured string.
\<close>

theorem unset_env_invalidates:
  assumes k: "keyed_by_id (graph t)" and rs: "request_sources (graph t)"
    and ac: "acyclic (subrequest_rel (graph t))" and ei: "env_index (graph t)"
    and req: "getRequestNode (graph t) requestId = Inr requestNode"
    and unset: "env (options t) e = None \<or> env (options t) e = Some []"
    and slot: "case nodes (graph t) (''env:'' @ e) of
                 None \<Rightarrow> True
               | Some n \<Rightarrow> (\<exists>v. node_value n = EnvValue e v) \<and> (''env:'' @ e) \<in> set (envNodeIds (graph t))"
    and cur: "cur e = None"
  shows "api_invalidateOnEnvChange t requestId e = invalidateOnEnvChange (graph t) requestId e [] \<and>
         (\<exists>g1. api_invalidateOnEnvChange t requestId e = Inr g1 \<and>
            (nodes (graph t) (''env:'' @ e) = None \<longrightarrow>
               getNode g1 (''env:'' @ e) = Some (nodeFromEnv e [])) \<and>
            (\<exists>ys. invalidateEnvNodes cur g1 = Some (Inr (g1\<lparr>invalidNodeIds := ys\<rparr>)) \<and>
                  requestId \<in> set ys \<and> set (invalidNodeIds g1) \<subseteq> set ys))"
proof -
  let ?g = "graph t"
  let ?en = "nodeFromEnv e []"
  let ?i = "''env:'' @ e"
  let ?ga = "ensureNode ?g ?en"
  let ?gb = "ensureEdge ?ga requestId ?i invalidated_by_update"
  have capt: "api_invalidateOnEnvChange t requestId e = invalidateOnEnvChange ?g requestId e []"
    using unset by (auto simp: api_invalidateOnEnvChange_def)
  have rn: "nodes ?g requestId = Some requestNode" "node_type requestNode = request_t"
    using req by (auto simp: getRequestNode_Inr)
  have rid: "node_id requestNode = requestId" using rn k by (auto simp: keyed_by_id_def)
  have eni: "node_id ?en = ?i" by (simp add: nodeFromEnv_def)
  have g1: "invalidateOnEnvChange ?g requestId e [] = Inr ?gb"
    using req rid eni by (simp add: invalidateOnEnvChange_def Let_def)
  have k1: "keyed_by_id ?gb" using k by (simp add: keyed_ensureNode)
  have rn0: "nodes ?ga requestId = Some requestNode"
    using rn by (auto simp: nodes_ensureNode hasNode_def eni)
  have rs1: "request_sources ?gb"
    using request_sources_ensureEdge[OF request_sources_ensureNode[OF rs] rn0 rn(2)] .
  have ac1: "acyclic (subrequest_rel ?gb)" using ac by (simp add: subrequest_rel_ensureEdge)
  have ei1: "env_index ?gb" using ei by (simp add: env_index_ensureNode)
  obtain n v where n: "nodes ?gb ?i = Some n" "node_value n = EnvValue e v"
    and idx: "?i \<in> set (envNodeIds ?gb)"
  proof (cases "nodes ?g ?i")
    case None
    then have "nodes ?gb ?i = Some ?en" "?i \<in> set (envNodeIds ?gb)"
      by (simp_all add: nodes_ensureNode envNodeIds_ensureNode hasNode_def eni)
         (simp add: nodeFromEnv_def node_type_def)
    then show ?thesis using that[of ?en "[]"] by (simp add: nodeFromEnv_def)
  next
    case (Some m)
    then obtain v where "node_value m = EnvValue e v" "?i \<in> set (envNodeIds ?g)"
      using slot by auto
    moreover have "nodes ?gb ?i = Some m" using Some by (simp add: nodes_ensureNode hasNode_def eni)
    moreover have "set (envNodeIds ?gb) = set (envNodeIds ?g)"
      using Some by (simp add: envNodeIds_ensureNode hasNode_def eni)
    ultimately show ?thesis using that[of m v] by simp
  qed
  have fresh: "nodes ?g ?i = None \<longrightarrow> getNode ?gb ?i = Some ?en"
    by (simp add: getNode_def nodes_ensureNode hasNode_def eni)
  obtain ys where ys: "invalidateEnvNodes cur ?gb = Some (Inr (?gb\<lparr>invalidNodeIds := ys\<rparr>))"
    "set (invalidNodeIds ?gb) \<subseteq> set ys"
    and M: "(\<Union>i \<in> set (envNodeIds ?gb).
              case nodes ?gb i of
                None \<Rightarrow> {}
              | Some n \<Rightarrow>
                  (case node_value n of
                     EnvValue key val \<Rightarrow>
                       if cur key \<noteq> Some val
                       then {a. (a, i, invalidated_by_update) \<in> set (edges ?gb) \<and> hasNode ?gb a} else {}
                   | _ \<Rightarrow> {})) \<subseteq> set ys"
    using invalidateEnvNodes_total[OF k1 rs1 ac1 ei1, of cur] by blast
  have "requestId \<in> {a. (a, ?i, invalidated_by_update) \<in> set (edges ?gb) \<and> hasNode ?gb a}"
    using rn0 by (simp add: hasNode_def)
  then have "requestId \<in> set ys"
    using M idx n cur by (auto dest!: bspec[where x = ?i] simp: UN_subset_iff)
  then show ?thesis using capt g1 fresh ys by auto
qed

theorem unset_env_invalidates_witness:
  "(\<exists>g1. api_invalidateOnEnvChange (empty_tracker\<lparr>graph := parent_child_graph\<rparr>) ''C'' ''NODE_ENV'' = Inr g1 \<and>
      getNode g1 ''env:NODE_ENV'' = Some (nodeFromEnv ''NODE_ENV'' []) \<and>
      (\<exists>ys. invalidateEnvNodes Map.empty g1 = Some (Inr (g1\<lparr>invalidNodeIds := ys\<rparr>)) \<and>
            ''C'' \<in> set ys))"
proof -
  let ?t = "empty_tracker\<lparr>graph := parent_child_graph\<rparr>"
  have rr: "responder_ready parent_child_graph" by (rule responder_ready_parent_child)
  have ei: "env_index (graph ?t)"
    by (simp add: env_index_def parent_child_graph_def empty_graph_def)
  have r: "getRequestNode (graph ?t) ''C'' = Inr C_node"
    by (simp add: getRequestNode_def getNode_def parent_child_graph_def empty_graph_def C_node_def
        nodeFromRequest_def node_type_def)
  have u: "env (options ?t) ''NODE_ENV'' = None \<or> env (options ?t) ''NODE_ENV'' = Some []"
    by (simp add: empty_tracker_def)
  have s: "case nodes (graph ?t) (''env:'' @ ''NODE_ENV'') of
             None \<Rightarrow> True
           | Some n \<Rightarrow> (\<exists>v. node_value n = EnvValue ''NODE_ENV'' v) \<and>
                       (''env:'' @ ''NODE_ENV'') \<in> set (envNodeIds (graph ?t))"
    by (simp add: parent_child_graph_def empty_graph_def)
  have f: "nodes (graph ?t) (''env:'' @ ''NODE_ENV'') = None"
    by (simp add: parent_child_graph_def empty_graph_def)
  have k: "keyed_by_id (graph ?t)" "request_sources (graph ?t)" "acyclic (subrequest_rel (graph ?t))"
    using rr by (simp_all add: responder_ready_def)
  from unset_env_invalidates[of ?t "''C''" C_node "''NODE_ENV''" Map.empty, OF k ei r u s refl]
  obtain g1 ys where a: "api_invalidateOnEnvChange ?t ''C'' ''NODE_ENV'' = Inr g1"
    and b: "nodes (graph ?t) (''env:'' @ ''NODE_ENV'') = None \<longrightarrow>
              getNode g1 (''env:'' @ ''NODE_ENV'') = Some (nodeFromEnv ''NODE_ENV'' [])"
    and c: "invalidateEnvNodes Map.empty g1 = Some (Inr (g1\<lparr>invalidNodeIds := ys\<rparr>))"
           "''C'' \<in> set ys"
    by (elim conjE exE) (rule that, assumption+)
  have "getNode g1 ''env:NODE_ENV'' = Some (nodeFromEnv ''NODE_ENV'' [])"
    using b f by simp
  with a c show ?thesis by blast
qed

section \<open>Removing a node\<close>

text \<open>
  Claim C4, at a failing input. \<open>removeNode\<close> deletes the id from \<open>invalidNodeIds\<close>,
  \<open>incompleteNodeIds\<close>, \<open>globNodeIds\<close>, \<open>envNodeIds\<close> and \<open>optionNodeIds\<close>, and
  not from \<open>unpredicatableNodeIds\<close>. The request \<open>P\<close> is started, calls
  \<open>invalidateOnStartup\<close> and is removed: its id is still in \<open>unpredicatableNodeIds\<close>,
  and \<open>invalidateUnpredictableNodes\<close> throws at \<open>nullthrows\<close>.
\<close>

theorem removeNode_keeps_unpredictable_id:
  "startRequest empty_tracker P_request = Inr (empty_tracker\<lparr>graph := started_graph\<rparr>) \<and>
   invalidateOnStartup started_graph ''P'' = Inr startup_graph \<and>
   getNode (removeNode startup_graph P_node) ''P'' = None \<and>
   unpredicatableNodeIds (removeNode startup_graph P_node) = [''P''] \<and>
   invalidateUnpredictableNodes (removeNode startup_graph P_node) = Some (Inl NullThrows)"
  by (simp add: started invalidateOnStartup_def startup_graph_def started_graph_def empty_graph_def
      getRequestNode_def getNode_def P_node_def nodeFromRequest_def node_type_def set_add_def
      removeNode_def Graph_removeNode_def set_delete_def invalidateUnpredictableNodes_def Let_def)

section \<open>The invalid and the incomplete set\<close>

text \<open>
  Claim C6, as the code has it. A request with a valid result is in neither set, in
  every state. The operations \<open>startRequest\<close>, \<open>completeRequest\<close>,
  \<open>rejectRequest\<close> and \<open>storeResult\<close>, in any order, keep the two sets disjoint.
\<close>

theorem lifecycle_keeps_sets_disjoint:
  "(hasValidResult t i \<longrightarrow>
      i \<notin> set (invalidNodeIds (graph t)) \<and> i \<notin> set (incompleteNodeIds (graph t))) \<and>
   (sets_disjoint t \<longrightarrow> sets_disjoint (fold apply_op ops t))"
proof -
  have "sets_disjoint t \<Longrightarrow> sets_disjoint (fold apply_op ops t)"
    by (induction ops arbitrary: t) (simp_all add: apply_op_disjoint)
  then show ?thesis by (auto simp: hasValidResult_def)
qed

theorem lifecycle_keeps_sets_disjoint_witness:
  "sets_disjoint empty_tracker \<and>
   sets_disjoint (fold apply_op [StartRequest P_request, RejectRequest ''P'',
                                 StartRequest P_request, CompleteRequest ''P''] empty_tracker) \<and>
   hasValidResult (fold apply_op [StartRequest P_request, CompleteRequest ''P''] empty_tracker) ''P'' \<and>
   ''P'' \<notin> set (invalidNodeIds (graph
             (fold apply_op [StartRequest P_request, CompleteRequest ''P''] empty_tracker))) \<and>
   ''P'' \<notin> set (incompleteNodeIds (graph
             (fold apply_op [StartRequest P_request, CompleteRequest ''P''] empty_tracker)))"
proof -
  have d: "sets_disjoint empty_tracker"
    by (simp add: sets_disjoint_def empty_tracker_def empty_graph_def)
  have v: "hasValidResult (fold apply_op [StartRequest P_request, CompleteRequest ''P''] empty_tracker) ''P''"
    by (simp add: started RequestTracker_completeRequest_def hasValidResult_def started_graph_def
        empty_graph_def set_delete_def)
  from lifecycle_keeps_sets_disjoint
         [of empty_tracker "''P''" "[StartRequest P_request, RejectRequest ''P'',
                                 StartRequest P_request, CompleteRequest ''P'']"]
       lifecycle_keeps_sets_disjoint
         [of "fold apply_op [StartRequest P_request, CompleteRequest ''P''] empty_tracker" "''P''" "[]"]
       d v
  show ?thesis by simp
qed

text \<open>
  Claim C6 as stated fails: \<open>invalidateNode\<close> adds the id to \<open>invalidNodeIds\<close> and
  leaves \<open>incompleteNodeIds\<close> as it is, so a request that is started and then
  invalidated is in both sets.
\<close>

theorem invalidateNode_on_incomplete_request:
  "startRequest empty_tracker P_request = Inr (empty_tracker\<lparr>graph := started_graph\<rparr>) \<and>
   invalidateNode P_node started_graph = Some (Inr (started_graph\<lparr>invalidNodeIds := [''P'']\<rparr>)) \<and>
   ''P'' \<in> set (invalidNodeIds (started_graph\<lparr>invalidNodeIds := [''P'']\<rparr>)) \<inter>
          set (incompleteNodeIds (started_graph\<lparr>invalidNodeIds := [''P'']\<rparr>))"
  by (simp add: started invalidateNode_def walk_Inl walk_Nil started_graph_def empty_graph_def
      P_node_def nodeFromRequest_def node_type_def hasNode_def getNodesConnectedTo_def
      List.map_filter_def set_add_def)

section \<open>A file name with a directory\<close>

text \<open>
  Claim C3, at a failing input. The request \<open>P\<close> declares
  \<open>invalidateOnFileCreate\<close> with the file name \<open>config/app.json\<close> above
  \<open>/a/b/index.js\<close> and completes. The file \<open>/a/config/app.json\<close> is created: its
  base name is \<open>app.json\<close>, its directory's base name is \<open>config\<close>, and
  \<open>/a/b/index.js\<close> is inside \<open>/a\<close>. The responder looks the parent up under
  \<open>file_name: config\<close> (with a space), where no node is, and asks for a
  \<open>dirname\<close> edge from the parent to the node while the edge that was added goes
  from the node to the parent; it invalidates nothing, and \<open>P\<close> keeps its valid
  result.
\<close>

theorem file_name_chain_not_invalidated:
  "runRequest chain_request sample_paths empty_tracker =
     (Inr (Num 1), empty_tracker\<lparr>graph := chain_graph\<rparr>) \<and>
   path_basename sample_paths ''/a/config/app.json'' = ''app.json'' \<and>
   path_basename sample_paths (path_dirname sample_paths ''/a/config/app.json'') = ''config'' \<and>
   isDirectoryInside sample_paths ''/a/b/index.js''
     (path_dirname sample_paths (path_dirname sample_paths ''/a/config/app.json'')) \<and>
   respondToFSEvents sample_paths [\<lparr>ev_path = ''/a/config/app.json'', ev_type = create\<rparr>] chain_graph =
     Some (Inr (False, chain_graph)) \<and>
   hasValidResult (empty_tracker\<lparr>graph := chain_graph\<rparr>) ''P''"
  by (simp add: chain_run chain_create)
     (simp add: sample_paths_def hasValidResult_def chain_graph_def empty_graph_def)

section \<open>A file update invalidates the request that declared it\<close>

text \<open>
  Claim C1. The request \<open>i\<close> had no valid result, was run with success, and its
  body called \<open>invalidateOnFileUpdate p\<close>; the body ran no request of the id \<open>i\<close>
  itself (which would clear the declaration), and the graph after the run is one on
  which the responder meets no failed invariant and no cycle. Then, for every batch
  that holds the update of \<open>p\<close>, the responder returns \<open>true\<close>, the request is in
  the invalid set and has no valid result, and \<open>runRequest\<close> of a request of this id
  executes the request (\<open>executeRequest\<close>: it starts it and runs its body) where it
  would have returned the stored result.
\<close>

theorem update_event_invalidates_declaring_request:
  assumes keyed: "keyed_by_id (graph t)"
    and novalid: "\<not> hasValidResult t i"
    and success: "runRequest (Request i ty inp run) ext t = (Inr v, t1)"
    and declared: "InvalidateOnFileUpdate p \<in> set (api_calls_made (Request i ty inp run) ext t)"
    and fresh: "i \<notin> body_started run"
    and ready: "responder_ready (graph t1)"
    and event: "\<lparr>ev_path = p, ev_type = update\<rparr> \<in> set events"
  shows "\<exists>t2. RequestTracker_respondToFSEvents ext' t1 events = Some (Inr (True, t2)) \<and>
           i \<in> set (invalidNodeIds (graph t2)) \<and>
           \<not> hasValidResult t2 i \<and>
           (\<forall>ty' inp' run' ext''.
              runRequest (Request i ty' inp' run') ext'' t2 =
                executeRequest (run_body run' ext'') i ty' inp' t2)"
proof -
  have slot: "case nodes (graph t) i of None \<Rightarrow> True | Some n \<Rightarrow> node_type n = request_t"
  proof (cases "nodes (graph t) i")
    case None
    then show ?thesis by simp
  next
    case (Some n)
    show ?thesis
    proof (cases "node_type n = request_t")
      case True
      then show ?thesis using Some by simp
    next
      case False
      then have "startRequest t (stored i ty inp) = Inl InvariantFailed"
        using Some by (simp add: startRequest_def stored_def hasNode_def getRequestNode_def getNode_def)
      then have "fst (runRequest (Request i ty inp run) ext t) \<noteq> Inr v"
        using novalid
        by (auto simp: executeRequest_stages finish_def split: sum.splits)
      then show ?thesis using success by simp
    qed
  qed
  obtain t0 out subs t2 es where
    t0: "startRequest t (stored i ty inp) = Inr t0" and
    st: "settle i (run_body run ext i [] t0) = (out, subs, t2)" and
    run: "runRequest (Request i ty inp run) ext t = (out, t2\<lparr>graph := (graph t2)\<lparr>edges := es\<rparr>\<rparr>)" and
    es: "set es = {(a, b, k') \<in> set (edges (graph t2)). \<not> (a = i \<and> k' = subrequest \<and> b \<notin> set subs)}
                    \<union> {(i, s, subrequest) |s. s \<in> set subs}" and
    h2: "hasNode (graph t2) i"
    using runRequest_executed[of t i ty inp run ext] keyed novalid slot by auto
  have t1: "t1 = t2\<lparr>graph := (graph t2)\<lparr>edges := es\<rparr>\<rparr>" using run success by simp
  have k0: "keyed_by_id (graph t0)"
    using start_keeps_keyed[OF t0] keyed by (simp add: keeps_keyed_def)
  have rn0: "\<exists>rn. nodes (graph t0) i = Some rn \<and> node_type rn = request_t"
    using startRequest_nodes[OF t0] slot
    by (cases "nodes (graph t) i")
       (auto simp: hasNode_def stored_def nodeFromRequest_def node_type_def)
  have calls: "InvalidateOnFileUpdate p \<in> set (calls_of run ext i [] t0)"
    using declared t0 by (simp add: api_calls_made_def)
  let ?tb = "snd (snd (run_body run ext i [] t0))"
  have eb: "(i, p, invalidated_by_update) \<in> set (edges (graph ?tb))" and hb: "hasNode (graph ?tb) p"
    using declared_update_edge[of i p run ext] k0 rn0 calls fresh by blast+
  have e2: "(i, p, invalidated_by_update) \<in> set (edges (graph t2))"
    using eb settle_fields(2)[of i "run_body run ext i [] t0"] st by simp
  have n2: "nodes (graph t2) = nodes (graph ?tb)"
    using settle_nodes[of i "run_body run ext i [] t0"] st by simp
  have e1: "(i, p, invalidated_by_update) \<in> set (edges (graph t1))"
    using e2 es t1 by auto
  have h1: "hasNode (graph t1) p" "hasNode (graph t1) i"
    using hb h2 n2 t1 by (simp_all add: hasNode_def)
  have target: "i \<in> update_targets (graph t1) \<lparr>ev_path = p, ev_type = update\<rparr>"
    using e1 h1 by (simp add: update_targets_def)
  obtain ys where ys: "respondToFSEvents ext' events (graph t1) =
        Some (Inr (ys \<noteq> [], (graph t1)\<lparr>invalidNodeIds := ys\<rparr>))"
    "(\<Union>ev \<in> set events. update_targets (graph t1) ev) \<subseteq> set ys"
    using respondToFSEvents_total[OF ready, of ext' events] by blast
  have iys: "i \<in> set ys" using ys(2) target event by blast
  then have ne: "ys \<noteq> []" by auto
  let ?t2 = "t1\<lparr>graph := (graph t1)\<lparr>invalidNodeIds := ys\<rparr>\<rparr>"
  have "RequestTracker_respondToFSEvents ext' t1 events = Some (Inr (True, ?t2))"
    using ys(1) ne by (simp add: RequestTracker_respondToFSEvents_def)
  moreover have "i \<in> set (invalidNodeIds (graph ?t2))" using iys by simp
  moreover have nv: "\<not> hasValidResult ?t2 i" using iys by (simp add: hasValidResult_def)
  moreover have "\<forall>ty' inp' run' ext''.
              runRequest (Request i ty' inp' run') ext'' ?t2 =
                executeRequest (run_body run' ext'') i ty' inp' ?t2"
    using nv by simp
  ultimately show ?thesis by blast
qed

lemma update_run:
  "runRequest update_request ext0 empty_tracker = (Inr (Num 42), empty_tracker\<lparr>graph := update_graph\<rparr>)"
  by (simp add: update_request_def update_graph_def P_request_def graph_reply_def
      invalidateOnFileUpdate_def ensureNode_def ensureEdge_def hasEdge_def storeResult_def
      nodeFromFilePath_def run_defs fun_upd_twist)

lemma update_graph_ready: "responder_ready update_graph"
proof -
  have "dirname_rel update_graph = {}" "subrequest_rel update_graph = {}"
    by (auto simp: dirname_rel_def subrequest_rel_def update_graph_def empty_graph_def)
  then have "acyclic (dirname_rel update_graph)" "acyclic (subrequest_rel update_graph)"
    by (simp_all add: wf_acyclic)
  moreover have "request_sources update_graph" "keyed_by_id update_graph"
    by (simp_all add: request_sources_def keyed_by_id_def update_graph_def empty_graph_def
        P_request_def nodeFromRequest_def nodeFromFilePath_def node_type_def)
  moreover have "typed_sources update_graph invalidated_by_create_above file_t"
    "typed_sources update_graph dirname file_name_t" "glob_index update_graph"
    by (simp_all add: typed_sources_def glob_index_def update_graph_def empty_graph_def)
  ultimately show ?thesis by (simp add: responder_ready_def)
qed

theorem update_event_invalidates_declaring_request_witness:
  "runRequest update_request ext0 empty_tracker = (Inr (Num 42), empty_tracker\<lparr>graph := update_graph\<rparr>) \<and>
   hasValidResult (empty_tracker\<lparr>graph := update_graph\<rparr>) ''P'' \<and>
   (\<exists>t2. RequestTracker_respondToFSEvents ext0 (empty_tracker\<lparr>graph := update_graph\<rparr>)
            [\<lparr>ev_path = ''/a/b.js'', ev_type = update\<rparr>] = Some (Inr (True, t2)) \<and>
         ''P'' \<in> set (invalidNodeIds (graph t2)) \<and>
         \<not> hasValidResult t2 ''P'' \<and>
         (\<forall>ty' inp' run' ext''.
            runRequest (Request ''P'' ty' inp' run') ext'' t2 =
              executeRequest (run_body run' ext'') ''P'' ty' inp' t2))"
proof -
  have k: "keyed_by_id (graph empty_tracker)"
    by (simp add: keyed_by_id_def empty_tracker_def empty_graph_def)
  have nv: "\<not> hasValidResult empty_tracker ''P''"
    by (simp add: hasValidResult_def empty_tracker_def empty_graph_def)
  have run: "runRequest (Request ''P'' ''t'' Undefined
                (Call (InvalidateOnFileUpdate ''/a/b.js'')
                   (\<lambda>r. Call (StoreResult (Num 42)) (\<lambda>r. Return (Num 42))))) ext0 empty_tracker =
             (Inr (Num 42), empty_tracker\<lparr>graph := update_graph\<rparr>)"
    using update_run by (simp add: update_request_def)
  have d: "InvalidateOnFileUpdate ''/a/b.js'' \<in> set (api_calls_made (Request ''P'' ''t'' Undefined
                (Call (InvalidateOnFileUpdate ''/a/b.js'')
                   (\<lambda>r. Call (StoreResult (Num 42)) (\<lambda>r. Return (Num 42))))) ext0 empty_tracker)"
    by (simp add: api_calls_made_def stored_def run_defs)
  have f: "''P'' \<notin> body_started (Call (InvalidateOnFileUpdate ''/a/b.js'')
                   (\<lambda>r. Call (StoreResult (Num 42)) (\<lambda>r. Return (Num 42))))"
    by simp
  have r: "responder_ready (graph (empty_tracker\<lparr>graph := update_graph\<rparr>))"
    using update_graph_ready by simp
  have v: "hasValidResult (empty_tracker\<lparr>graph := update_graph\<rparr>) ''P''"
    by (simp add: hasValidResult_def update_graph_def empty_graph_def)
  have e: "\<lparr>ev_path = ''/a/b.js'', ev_type = update\<rparr> \<in> set [\<lparr>ev_path = ''/a/b.js'', ev_type = update\<rparr>]"
    by simp
  from update_event_invalidates_declaring_request[OF k nv run d f r e, where ext' = ext0]
  show ?thesis using update_run v by simp
qed

section \<open>The subrequest edges after a run\<close>

text \<open>
  Claim C2. The request \<open>r\<close> has no valid result, and its id is free or the id of a
  request node. After \<open>runRequest\<close>, whether it returns a result or an error, the
  targets of the \<open>subrequest\<close> edges of the request are the ids of the requests that
  its body passed to \<open>api.runRequest\<close> during the run, and a request that failed is in
  the invalid set. In particular, when the body of the parent runs the child \<open>c\<close>
  first and lets its error through, and \<open>c\<close> fails, the parent fails with that error,
  its \<open>subrequest\<close> edges lead to \<open>c\<close> and nowhere else, and both are in the invalid
  set.
\<close>

theorem runRequest_reconciles_subrequests:
  assumes keyed: "keyed_by_id (graph t)" and novalid: "\<not> hasValidResult t (req_id r)"
    and slot: "case nodes (graph t) (req_id r) of None \<Rightarrow> True | Some n \<Rightarrow> node_type n = request_t"
  shows "subrequest_targets (graph (snd (runRequest r ext t))) (req_id r) =
           {req_id s |s. RunRequest s \<in> set (api_calls_made r ext t)} \<and>
         (case fst (runRequest r ext t) of
            Inl e \<Rightarrow> req_id r \<in> set (invalidNodeIds (graph (snd (runRequest r ext t))))
          | Inr v \<Rightarrow> True) \<and>
         (\<forall>c k e.
            req_run r = Call (RunRequest c) k \<and> (\<forall>e'. k (Thrown e') = Throw e') \<and>
            req_id c \<noteq> req_id r \<and>
            (case nodes (graph t) (req_id c) of None \<Rightarrow> True | Some n \<Rightarrow> node_type n = request_t) \<and>
            fst (runRequest c ext (after_start t r)) = Inl e \<longrightarrow>
            fst (runRequest r ext t) = Inl e \<and>
            subrequest_targets (graph (snd (runRequest r ext t))) (req_id r) = {req_id c} \<and>
            req_id r \<in> set (invalidNodeIds (graph (snd (runRequest r ext t)))) \<and>
            req_id c \<in> set (invalidNodeIds (graph (snd (runRequest r ext t)))))"
proof -
  have scenario:
    "fst (runRequest r ext t) = Inl e \<and>
     subrequest_targets (graph (snd (runRequest r ext t))) (req_id r) = {req_id c} \<and>
     req_id r \<in> set (invalidNodeIds (graph (snd (runRequest r ext t)))) \<and>
     req_id c \<in> set (invalidNodeIds (graph (snd (runRequest r ext t))))"
    if b: "req_run r = Call (RunRequest c) k" and p: "\<forall>e'. k (Thrown e') = Throw e'"
      and ne: "req_id c \<noteq> req_id r"
      and cs: "case nodes (graph t) (req_id c) of None \<Rightarrow> True | Some n \<Rightarrow> node_type n = request_t"
      and f: "fst (runRequest c ext (after_start t r)) = Inl e"
    for c k e
  proof (cases r)
    case (Request i ty inp run)
    then have r: "r = Request i ty inp (Call (RunRequest c) k)" using b by simp
    show ?thesis
      using child_failure_propagates[where t = t and i = i and k = k and c = c and ty = ty
              and inp = inp and ext = ext and e = e] keyed novalid slot p ne cs f
      unfolding r by simp
  qed
  show ?thesis
    using runRequest_subrequest_edges[OF keyed novalid slot, of ext] scenario by blast
qed

lemma parent_run:
  "runRequest parent_request ext0 empty_tracker =
     (Inl (RequestFailed ''boom''),
      empty_tracker\<lparr>graph := empty_graph\<lparr>nodes := [''P'' \<mapsto> P_node, ''C'' \<mapsto> C_node],
                                           edges := [(''P'', ''C'', subrequest)],
                                           invalidNodeIds := [''C'', ''P'']\<rparr>\<rparr>)"
  by (simp add: parent_request_def failing_request_def propagate_def P_node_def C_node_def
      nullthrows_all.simps run_defs fun_upd_twist)

theorem runRequest_reconciles_subrequests_witness:
  "keyed_by_id (graph empty_tracker) \<and> \<not> hasValidResult empty_tracker ''P'' \<and>
   subrequest_targets (graph (snd (runRequest parent_request ext0 empty_tracker))) ''P'' =
     {req_id s |s. RunRequest s \<in> set [RunRequest failing_request]} \<and>
   fst (runRequest failing_request ext0 (after_start empty_tracker parent_request)) =
     Inl (RequestFailed ''boom'') \<and>
   fst (runRequest parent_request ext0 empty_tracker) = Inl (RequestFailed ''boom'') \<and>
   subrequest_targets (graph (snd (runRequest parent_request ext0 empty_tracker))) ''P'' = {''C''} \<and>
   ''P'' \<in> set (invalidNodeIds (graph (snd (runRequest parent_request ext0 empty_tracker)))) \<and>
   ''C'' \<in> set (invalidNodeIds (graph (snd (runRequest parent_request ext0 empty_tracker))))"
proof -
  have k: "keyed_by_id (graph empty_tracker)"
    by (simp add: keyed_by_id_def empty_tracker_def empty_graph_def)
  have nv: "\<not> hasValidResult empty_tracker (req_id parent_request)"
    by (simp add: hasValidResult_def empty_tracker_def empty_graph_def)
  have s: "case nodes (graph empty_tracker) (req_id parent_request) of
             None \<Rightarrow> True | Some n \<Rightarrow> node_type n = request_t"
    by (simp add: empty_tracker_def empty_graph_def)
  have calls: "api_calls_made parent_request ext0 empty_tracker = [RunRequest failing_request]"
    by (simp add: api_calls_made_def parent_request_def failing_request_def propagate_def stored_def
        run_defs)
  have b: "req_run parent_request = Call (RunRequest failing_request) propagate"
    and p: "\<forall>e'. propagate (Thrown e') = Throw e'"
    and ne: "req_id failing_request \<noteq> req_id parent_request"
    and i: "req_id parent_request = ''P''" "req_id failing_request = ''C''"
    by (simp_all add: parent_request_def failing_request_def propagate_def)
  have cs: "case nodes (graph empty_tracker) (req_id failing_request) of
             None \<Rightarrow> True | Some n \<Rightarrow> node_type n = request_t"
    by (simp add: empty_tracker_def empty_graph_def)
  have f: "fst (runRequest failing_request ext0 (after_start empty_tracker parent_request)) =
             Inl (RequestFailed ''boom'')"
    by (simp add: after_start_def parent_request_def failing_request_def stored_def run_defs)
  note th = runRequest_reconciles_subrequests[OF k nv s, of ext0]
  from th have one: "subrequest_targets (graph (snd (runRequest parent_request ext0 empty_tracker)))
          (req_id parent_request) =
        {req_id s |s. RunRequest s \<in> set (api_calls_made parent_request ext0 empty_tracker)}"
    by (rule conjunct1)
  from th have "\<forall>c k e.
            req_run parent_request = Call (RunRequest c) k \<and> (\<forall>e'. k (Thrown e') = Throw e') \<and>
            req_id c \<noteq> req_id parent_request \<and>
            (case nodes (graph empty_tracker) (req_id c) of
               None \<Rightarrow> True | Some n \<Rightarrow> node_type n = request_t) \<and>
            fst (runRequest c ext0 (after_start empty_tracker parent_request)) = Inl e \<longrightarrow>
            fst (runRequest parent_request ext0 empty_tracker) = Inl e \<and>
            subrequest_targets (graph (snd (runRequest parent_request ext0 empty_tracker)))
              (req_id parent_request) = {req_id c} \<and>
            req_id parent_request \<in> set (invalidNodeIds (graph (snd (runRequest parent_request ext0 empty_tracker)))) \<and>
            req_id c \<in> set (invalidNodeIds (graph (snd (runRequest parent_request ext0 empty_tracker))))"
    by (elim conjE)
  then have two: "fst (runRequest parent_request ext0 empty_tracker) = Inl (RequestFailed ''boom'') \<and>
            subrequest_targets (graph (snd (runRequest parent_request ext0 empty_tracker)))
              (req_id parent_request) = {req_id failing_request} \<and>
            req_id parent_request \<in> set (invalidNodeIds (graph (snd (runRequest parent_request ext0 empty_tracker)))) \<and>
            req_id failing_request \<in> set (invalidNodeIds (graph (snd (runRequest parent_request ext0 empty_tracker))))"
    using b p ne cs f by blast
  show ?thesis
    using k nv one two f unfolding calls i by simp
qed

end
